theory Spec2Isabelle
  imports Main "HOL-Library.Multiset" "HOL-Library.Monad_Syntax"
begin

section \<open>Data model of \<open>sjtu::priority_queue\<close>\<close>

text \<open>
  The container is a leftist heap of heap-allocated nodes that \<open>mergeNodes\<close> relinks in
  place. Nodes therefore live in an explicit store (addresses to node records), and the
  containers themselves live in slots, so that \<open>this == &other\<close> is a comparison of slot
  numbers. A null pointer is \<open>None\<close>.

  The field \<open>npl\<close> is a C++ \<open>int\<close> and \<open>count\<close> a \<open>size_t\<close>. The null path length of a node
  is bounded by the logarithm of the number of live nodes and \<open>count\<close> by that number, so
  neither can wrap upwards; both are modelled without wrap-around (\<open>int\<close> and \<open>nat\<close>).
  The one decrement, in \<open>pop\<close>, runs with a root present, where \<open>count\<close> is at least 1 in
  every reachable world.
\<close>

type_synonym addr = nat
type_synonym qid = nat

record 'a node =
  data :: 'a
  left :: "addr option"
  right :: "addr option"
  npl :: int

text \<open>
  The comparison object \<open>cmp\<close> is a predicate on two elements that may throw for
  certain data: \<open>None\<close> is a comparison that throws, \<open>Some b\<close> one that returns \<open>b\<close>.
\<close>

type_synonym 'a compare = "'a \<Rightarrow> 'a \<Rightarrow> bool option"

record 'a pq =
  root :: "addr option"
  count_pq :: nat
  cmp :: "'a compare"

datatype exn = container_is_empty | runtime_error | predicate_failure | bad_alloc

text \<open>
  An operation returns normally (\<open>Ok\<close>), leaves by an exception (\<open>Throw\<close>), or runs into
  undefined behaviour (\<open>Fault\<close>): a read or write through a pointer to no live node, or a
  \<open>delete\<close> of a node that is not live. \<open>catch (...)\<close> handles \<open>Throw\<close> only.
\<close>

datatype 'r outcome = Ok 'r | Throw exn | Fault

type_synonym 'a store = "addr \<Rightarrow> 'a node option"

text \<open>
  The world: the node store, the allocator (the next address it hands out, and the
  results of the coming \<open>new\<close> expressions: \<open>False\<close> is one that throws, an exhausted plan
  always succeeds), the log of every \<open>delete\<close> executed, and the container slots.
\<close>

record 'a world =
  nodes :: "'a store"
  next_addr :: addr
  alloc_plan :: "bool list"
  released :: "addr list"
  queues :: "qid \<Rightarrow> 'a pq"

section \<open>Allocation and release\<close>

text \<open>
  \<open>new Node(d)\<close>: the constructor sets both links to null and \<open>npl\<close> to 0. The allocator
  hands out addresses in increasing order and never reuses one. A \<open>new\<close> expression that
  throws has allocated nothing.
\<close>

definition new_node :: "'a world \<Rightarrow> 'a \<Rightarrow> addr outcome \<times> 'a world" where
  "new_node w d =
     (case alloc_plan w of
        False # bs \<Rightarrow> (Throw bad_alloc, w\<lparr>alloc_plan := bs\<rparr>)
      | _ \<Rightarrow> (Ok (next_addr w),
               w\<lparr>nodes := (nodes w)(next_addr w \<mapsto> \<lparr>data = d, left = None, right = None, npl = 0\<rparr>),
                 next_addr := Suc (next_addr w),
                 alloc_plan := tl (alloc_plan w)\<rparr>))"

text \<open>\<open>delete p\<close>: every call is logged; deleting what is not live is a fault.\<close>

definition delete_node :: "'a world \<Rightarrow> addr \<Rightarrow> unit outcome \<times> 'a world" where
  "delete_node w p =
     (case nodes w p of
        None \<Rightarrow> (Fault, w\<lparr>released := p # released w\<rparr>)
      | Some n \<Rightarrow> (Ok (), w\<lparr>nodes := (nodes w)(p := None), released := p # released w\<rparr>))"

text \<open>A write to a field of the node at \<open>p\<close>; \<open>None\<close> when \<open>p\<close> is not live.\<close>

definition write_node :: "'a world \<Rightarrow> addr \<Rightarrow> ('a node \<Rightarrow> 'a node) \<Rightarrow> 'a world option" where
  "write_node w p f =
     (case nodes w p of None \<Rightarrow> None | Some n \<Rightarrow> Some (w\<lparr>nodes := (nodes w)(p \<mapsto> f n)\<rparr>))"

definition set_queue :: "'a world \<Rightarrow> qid \<Rightarrow> ('a pq \<Rightarrow> 'a pq) \<Rightarrow> 'a world" where
  "set_queue w q f = w\<lparr>queues := (queues w)(q := f (queues w q))\<rparr>"

section \<open>The private helpers\<close>

fun getNpl :: "'a store \<Rightarrow> addr option \<Rightarrow> int option" where
  "getNpl s None = Some (- 1)"
| "getNpl s (Some p) = map_option npl (s p)"

text \<open>
  The statements of \<open>mergeNodes\<close> after its recursive call, on the surviving root \<open>h1\<close>
  and the merged right subtree \<open>m\<close>: store \<open>m\<close> as right child, swap the children when
  the left null path length is the smaller, set \<open>npl\<close>. \<open>None\<close> is a fault.
\<close>

definition mergeNodes_relink :: "'a store \<Rightarrow> addr \<Rightarrow> addr option \<Rightarrow> 'a store option" where
  "mergeNodes_relink s h1 m =
     do {
       n \<leftarrow> s h1;
       let s1 = s(h1 \<mapsto> n\<lparr>right := m\<rparr>);
       n1 \<leftarrow> s1 h1;
       a \<leftarrow> getNpl s1 (left n1);
       b \<leftarrow> getNpl s1 (right n1);
       let s2 = (if a < b then s1(h1 \<mapsto> n1\<lparr>left := right n1, right := left n1\<rparr>) else s1);
       n2 \<leftarrow> s2 h1;
       c \<leftarrow> getNpl s2 (right n2);
       Some (s2(h1 \<mapsto> n2\<lparr>npl := c + 1\<rparr>))
     }"

text \<open>
  \<open>mergeNodes\<close>. The recursion follows right links of the store, which need not end in
  a store that is not a tree: a call that does not return is \<open>None\<close>.
\<close>

partial_function (option) mergeNodes ::
  "'a compare \<Rightarrow> 'a store \<Rightarrow> addr option \<Rightarrow> addr option
     \<Rightarrow> (addr option outcome \<times> 'a store) option" where
  "mergeNodes c s h1 h2 =
     (case h1 of None \<Rightarrow> Some (Ok h2, s) | Some p1 \<Rightarrow>
     (case h2 of None \<Rightarrow> Some (Ok h1, s) | Some p2 \<Rightarrow>
     (case s p1 of None \<Rightarrow> Some (Fault, s) | Some n1 \<Rightarrow>
     (case s p2 of None \<Rightarrow> Some (Fault, s) | Some n2 \<Rightarrow>
     (case c (data n1) (data n2) of None \<Rightarrow> Some (Throw predicate_failure, s) | Some b \<Rightarrow>
     (let h1' = (if b then p2 else p1); h2' = (if b then p1 else p2) in
     (case s h1' of None \<Rightarrow> Some (Fault, s) | Some n \<Rightarrow>
      Option.bind (mergeNodes c s (right n) (Some h2')) (\<lambda>(r, s1).
        (case r of
          Ok m \<Rightarrow> (case mergeNodes_relink s1 h1' m of
                     None \<Rightarrow> Some (Fault, s1)
                   | Some s2 \<Rightarrow> Some (Ok (Some h1'), s2))
        | Throw e \<Rightarrow> Some (Throw e, s1)
        | Fault \<Rightarrow> Some (Fault, s1))))))))))"

declare mergeNodes.simps [code]

text \<open>\<open>deleteTree\<close>: post-order release of a whole tree.\<close>

partial_function (option) deleteTree ::
  "'a world \<Rightarrow> addr option \<Rightarrow> (unit outcome \<times> 'a world) option" where
  "deleteTree w node =
     (case node of None \<Rightarrow> Some (Ok (), w) | Some p \<Rightarrow>
     (case nodes w p of None \<Rightarrow> Some (Fault, w) | Some n \<Rightarrow>
      Option.bind (deleteTree w (left n)) (\<lambda>(r1, w1).
        (case r1 of
          Ok _ \<Rightarrow>
            (case nodes w1 p of None \<Rightarrow> Some (Fault, w1) | Some n1 \<Rightarrow>
             Option.bind (deleteTree w1 (right n1)) (\<lambda>(r2, w2).
               (case r2 of
                 Ok _ \<Rightarrow> Some (delete_node w2 p)
               | Throw e \<Rightarrow> Some (Throw e, w2)
               | Fault \<Rightarrow> Some (Fault, w2))))
        | Throw e \<Rightarrow> Some (Throw e, w1)
        | Fault \<Rightarrow> Some (Fault, w1)))))"

declare deleteTree.simps [code]

text \<open>
  The two handlers of \<open>copyTree\<close>. The inner \<open>try\<close> statement lies inside the block of the
  outer one, so the \<open>throw;\<close> that ends the inner handler is caught by the outer handler,
  which runs \<open>delete newNode\<close> again.
\<close>

definition copyTree_outer_catch ::
  "'a world \<Rightarrow> addr \<Rightarrow> exn \<Rightarrow> addr option outcome \<times> 'a world" where
  "copyTree_outer_catch w newNode e =
     (case delete_node w newNode of
        (Ok _, w1) \<Rightarrow> (Throw e, w1)
      | (Throw e', w1) \<Rightarrow> (Throw e', w1)
      | (Fault, w1) \<Rightarrow> (Fault, w1))"

definition copyTree_inner_catch ::
  "'a world \<Rightarrow> addr \<Rightarrow> exn \<Rightarrow> (addr option outcome \<times> 'a world) option" where
  "copyTree_inner_catch w newNode e =
     (case nodes w newNode of None \<Rightarrow> Some (Fault, w) | Some n \<Rightarrow>
      Option.bind (deleteTree w (left n)) (\<lambda>(r, w1).
        (case r of
          Ok _ \<Rightarrow>
            (case delete_node w1 newNode of
               (Ok _, w2) \<Rightarrow> Some (copyTree_outer_catch w2 newNode e)
             | (Throw e', w2) \<Rightarrow> Some (copyTree_outer_catch w2 newNode e')
             | (Fault, w2) \<Rightarrow> Some (Fault, w2))
        | Throw e' \<Rightarrow> Some (copyTree_outer_catch w1 newNode e')
        | Fault \<Rightarrow> Some (Fault, w1))))"

partial_function (option) copyTree ::
  "'a world \<Rightarrow> addr option \<Rightarrow> (addr option outcome \<times> 'a world) option" where
  "copyTree w node =
     (case node of None \<Rightarrow> Some (Ok None, w) | Some p \<Rightarrow>
     (case nodes w p of None \<Rightarrow> Some (Fault, w) | Some n \<Rightarrow>
     (case new_node w (data n) of
        (Throw e, w1) \<Rightarrow> Some (Throw e, w1)
      | (Fault, w1) \<Rightarrow> Some (Fault, w1)
      | (Ok newNode, w1) \<Rightarrow>
     (case nodes w1 p of None \<Rightarrow> Some (Fault, w1) | Some n1 \<Rightarrow>
     (case write_node w1 newNode (\<lambda>x. x\<lparr>npl := npl n1\<rparr>) of None \<Rightarrow> Some (Fault, w1) | Some w2 \<Rightarrow>
     (case nodes w2 p of None \<Rightarrow> Some (Fault, w2) | Some n2 \<Rightarrow>
      Option.bind (copyTree w2 (left n2)) (\<lambda>(r1, w3).
        (case r1 of
          Fault \<Rightarrow> Some (Fault, w3)
        | Throw e \<Rightarrow> Some (copyTree_outer_catch w3 newNode e)
        | Ok l \<Rightarrow>
            (case write_node w3 newNode (\<lambda>x. x\<lparr>left := l\<rparr>) of None \<Rightarrow> Some (Fault, w3) | Some w4 \<Rightarrow>
            (case nodes w4 p of None \<Rightarrow> Some (Fault, w4) | Some n4 \<Rightarrow>
             Option.bind (copyTree w4 (right n4)) (\<lambda>(r2, w5).
               (case r2 of
                 Fault \<Rightarrow> Some (Fault, w5)
               | Throw e \<Rightarrow> copyTree_inner_catch w5 newNode e
               | Ok r \<Rightarrow>
                   (case write_node w5 newNode (\<lambda>x. x\<lparr>right := r\<rparr>) of
                      None \<Rightarrow> Some (Fault, w5)
                    | Some w6 \<Rightarrow> Some (Ok (Some newNode), w6))))))))))))))"

declare copyTree.simps [code]

section \<open>The public operations\<close>

text \<open>
  \<open>priority_queue()\<close>: the comparison object is default-constructed; its value \<open>dflt\<close> is
  a parameter (the type argument \<open>Compare\<close>).
\<close>

definition priority_queue_default :: "'a compare \<Rightarrow> 'a world \<Rightarrow> qid \<Rightarrow> 'a world" where
  "priority_queue_default dflt w this =
     set_queue w this (\<lambda>q. \<lparr>root = None, count_pq = 0, cmp = dflt\<rparr>)"

text \<open>
  The copy constructor. When \<open>copyTree\<close> throws, the constructor leaves by the exception
  and no object comes into being: the slots are those before the call.
\<close>

definition priority_queue_copy ::
  "'a world \<Rightarrow> qid \<Rightarrow> qid \<Rightarrow> (unit outcome \<times> 'a world) option" where
  "priority_queue_copy w this other =
     (let w1 = set_queue w this (\<lambda>q. q\<lparr>root := None\<rparr>);
          w2 = set_queue w1 this (\<lambda>q. q\<lparr>count_pq := count_pq (queues w1 other)\<rparr>);
          w3 = set_queue w2 this (\<lambda>q. q\<lparr>cmp := cmp (queues w2 other)\<rparr>)
      in
      (case root (queues w3 other) of
         None \<Rightarrow> Some (Ok (), w3)
       | Some p \<Rightarrow>
           Option.bind (copyTree w3 (Some p)) (\<lambda>(r, w4).
             (case r of
                Ok c \<Rightarrow> Some (Ok (), set_queue w4 this (\<lambda>q. q\<lparr>root := c\<rparr>))
              | Throw x \<Rightarrow> Some (Throw x, w4\<lparr>queues := queues w\<rparr>)
              | Fault \<Rightarrow> Some (Fault, w4)))))"

text \<open>\<open>operator=\<close> returns \<open>*this\<close>: the slot of the receiver.\<close>

definition assign :: "'a world \<Rightarrow> qid \<Rightarrow> qid \<Rightarrow> (qid outcome \<times> 'a world) option" where
  "assign w this other =
     (if this = other then Some (Ok this, w)
      else
        Option.bind
          (case root (queues w other) of
             None \<Rightarrow> Some (Ok None, w)
           | Some p \<Rightarrow> copyTree w (Some p))
          (\<lambda>(r, w1).
            (case r of
               Throw x \<Rightarrow> Some (Throw x, w1)
             | Fault \<Rightarrow> Some (Fault, w1)
             | Ok newRoot \<Rightarrow>
                 Option.bind (deleteTree w1 (root (queues w1 this))) (\<lambda>(r2, w2).
                   (case r2 of
                      Throw x \<Rightarrow> Some (Throw x, w2)
                    | Fault \<Rightarrow> Some (Fault, w2)
                    | Ok _ \<Rightarrow>
                        (let w3 = set_queue w2 this (\<lambda>q. q\<lparr>root := newRoot\<rparr>);
                             w4 = set_queue w3 this (\<lambda>q. q\<lparr>count_pq := count_pq (queues w3 other)\<rparr>);
                             w5 = set_queue w4 this (\<lambda>q. q\<lparr>cmp := cmp (queues w4 other)\<rparr>)
                         in Some (Ok this, w5)))))))"

text \<open>\<open>top\<close> is \<open>const\<close>; the world it returns is the one it was given.\<close>

definition top_pq :: "'a world \<Rightarrow> qid \<Rightarrow> 'a outcome \<times> 'a world" where
  "top_pq w this =
     (case root (queues w this) of
        None \<Rightarrow> (Throw container_is_empty, w)
      | Some p \<Rightarrow> (case nodes w p of None \<Rightarrow> (Fault, w) | Some n \<Rightarrow> (Ok (data n), w)))"

definition push :: "'a world \<Rightarrow> qid \<Rightarrow> 'a \<Rightarrow> (unit outcome \<times> 'a world) option" where
  "push w this e =
     (case new_node w e of
        (Throw x, w1) \<Rightarrow> Some (Throw x, w1)
      | (Fault, w1) \<Rightarrow> Some (Fault, w1)
      | (Ok newNode, w1) \<Rightarrow>
          (let oldRoot = root (queues w1 this);
               oldCount = count_pq (queues w1 this)
           in
           Option.bind
             (mergeNodes (cmp (queues w1 this)) (nodes w1) (root (queues w1 this)) (Some newNode))
             (\<lambda>(r, s).
               (let w2 = w1\<lparr>nodes := s\<rparr> in
                (case r of
                   Ok m \<Rightarrow>
                     Some (Ok (),
                       set_queue (set_queue w2 this (\<lambda>q. q\<lparr>root := m\<rparr>)) this
                         (\<lambda>q. q\<lparr>count_pq := Suc (count_pq q)\<rparr>))
                 | Throw x \<Rightarrow>
                     (case delete_node w2 newNode of
                        (Ok _, w3) \<Rightarrow>
                          Some (Throw runtime_error,
                            set_queue w3 this (\<lambda>q. q\<lparr>root := oldRoot, count_pq := oldCount\<rparr>))
                      | (Throw x', w3) \<Rightarrow> Some (Throw x', w3)
                      | (Fault, w3) \<Rightarrow> Some (Fault, w3))
                 | Fault \<Rightarrow> Some (Fault, w2))))))"

definition pop :: "'a world \<Rightarrow> qid \<Rightarrow> (unit outcome \<times> 'a world) option" where
  "pop w this =
     (case root (queues w this) of
        None \<Rightarrow> Some (Throw container_is_empty, w)
      | Some oldRoot \<Rightarrow>
     (case nodes w oldRoot of
        None \<Rightarrow> Some (Fault, w)
      | Some n \<Rightarrow>
          (let oldCount = count_pq (queues w this) in
           Option.bind (mergeNodes (cmp (queues w this)) (nodes w) (left n) (right n))
             (\<lambda>(r, s).
               (let w1 = w\<lparr>nodes := s\<rparr> in
                (case r of
                   Ok m \<Rightarrow>
                     (case delete_node (set_queue w1 this (\<lambda>q. q\<lparr>root := m\<rparr>)) oldRoot of
                        (Ok _, w2) \<Rightarrow>
                          Some (Ok (), set_queue w2 this (\<lambda>q. q\<lparr>count_pq := count_pq q - 1\<rparr>))
                      | (Throw x', w2) \<Rightarrow> Some (Throw x', w2)
                      | (Fault, w2) \<Rightarrow> Some (Fault, w2))
                 | Throw x \<Rightarrow>
                     Some (Throw runtime_error,
                       set_queue w1 this (\<lambda>q. q\<lparr>root := Some oldRoot, count_pq := oldCount\<rparr>))
                 | Fault \<Rightarrow> Some (Fault, w1)))))))"

definition size_pq :: "'a world \<Rightarrow> qid \<Rightarrow> nat" where
  "size_pq w this = count_pq (queues w this)"

definition empty_pq :: "'a world \<Rightarrow> qid \<Rightarrow> bool" where
  "empty_pq w this = (count_pq (queues w this) = 0)"

definition merge :: "'a world \<Rightarrow> qid \<Rightarrow> qid \<Rightarrow> (unit outcome \<times> 'a world) option" where
  "merge w this other =
     (if this = other then Some (Ok (), w)
      else
        (let oldRoot = root (queues w this);
             otherOldRoot = root (queues w other);
             oldCount = count_pq (queues w this);
             otherOldCount = count_pq (queues w other)
         in
         Option.bind
           (mergeNodes (cmp (queues w this)) (nodes w) (root (queues w this)) (root (queues w other)))
           (\<lambda>(r, s).
             (let w1 = w\<lparr>nodes := s\<rparr> in
              (case r of
                 Ok m \<Rightarrow>
                   (let w2 = set_queue w1 this (\<lambda>q. q\<lparr>root := m\<rparr>);
                        w3 = set_queue w2 this
                               (\<lambda>q. q\<lparr>count_pq := count_pq q + count_pq (queues w2 other)\<rparr>);
                        w4 = set_queue w3 other (\<lambda>q. q\<lparr>root := None\<rparr>);
                        w5 = set_queue w4 other (\<lambda>q. q\<lparr>count_pq := 0\<rparr>)
                    in Some (Ok (), w5))
               | Throw x \<Rightarrow>
                   (let w2 = set_queue w1 this (\<lambda>q. q\<lparr>root := oldRoot\<rparr>);
                        w3 = set_queue w2 other (\<lambda>q. q\<lparr>root := otherOldRoot\<rparr>);
                        w4 = set_queue w3 this (\<lambda>q. q\<lparr>count_pq := oldCount\<rparr>);
                        w5 = set_queue w4 other (\<lambda>q. q\<lparr>count_pq := otherOldCount\<rparr>)
                    in Some (Throw runtime_error, w5))
               | Fault \<Rightarrow> Some (Fault, w1))))))"

section \<open>Trees in the store\<close>

text \<open>
  The tree a root pointer owns, read off the store: each node with its address, element
  and stored \<open>npl\<close>. It is used to state what the operations do to the elements; the
  operations themselves work on the store.
\<close>

datatype 'a shape = Absent | Present addr 'a int "'a shape" "'a shape"

fun ptr :: "'a shape \<Rightarrow> addr option" where
  "ptr Absent = None"
| "ptr (Present a d n l r) = Some a"

text \<open>The addresses of a tree, in the order \<open>deleteTree\<close> releases them.\<close>

fun addrs :: "'a shape \<Rightarrow> addr list" where
  "addrs Absent = []"
| "addrs (Present a d n l r) = addrs l @ addrs r @ [a]"

fun elems :: "'a shape \<Rightarrow> 'a multiset" where
  "elems Absent = {#}"
| "elems (Present a d n l r) = {#d#} + elems l + elems r"

text \<open>What \<open>getNpl\<close> returns for the root of a tree.\<close>

fun npl_of :: "'a shape \<Rightarrow> int" where
  "npl_of Absent = - 1"
| "npl_of (Present a d n l r) = n"

text \<open>The store holds the tree: every node is live at its address, with these links.\<close>

fun holds :: "'a store \<Rightarrow> 'a shape \<Rightarrow> bool" where
  "holds s Absent = True"
| "holds s (Present a d n l r) =
     (s a = Some \<lparr>data = d, left = ptr l, right = ptr r, npl = n\<rparr> \<and> holds s l \<and> holds s r)"

text \<open>
  The merge of two trees as \<open>mergeNodes\<close> computes it: \<open>join\<close> is the surviving root with
  its left subtree and the merged right subtree, after the swap and the \<open>npl\<close> update.
  \<open>None\<close> is a comparison that throws.
\<close>

definition join :: "addr \<Rightarrow> 'a \<Rightarrow> 'a shape \<Rightarrow> 'a shape \<Rightarrow> 'a shape" where
  "join a d l m =
     (if npl_of l < npl_of m then Present a d (npl_of l + 1) m l
      else Present a d (npl_of m + 1) l m)"

function merge_shape :: "'a compare \<Rightarrow> 'a shape \<Rightarrow> 'a shape \<Rightarrow> 'a shape option" where
  "merge_shape c Absent t2 = Some t2"
| "merge_shape c (Present a1 d1 n1 l1 r1) Absent = Some (Present a1 d1 n1 l1 r1)"
| "merge_shape c (Present a1 d1 n1 l1 r1) (Present a2 d2 n2 l2 r2) =
     (case c d1 d2 of
        None \<Rightarrow> None
      | Some b \<Rightarrow>
          (if b then map_option (join a2 d2 l2) (merge_shape c r2 (Present a1 d1 n1 l1 r1))
           else map_option (join a1 d1 l1) (merge_shape c r1 (Present a2 d2 n2 l2 r2))))"
  by pat_completeness auto
termination
  by (relation "measure (\<lambda>(c, t1, t2). size t1 + size t2)") auto

text \<open>The two invariants of the data model, on the stored \<open>npl\<close> fields and a total order test.\<close>

fun root_not_less :: "('a \<Rightarrow> 'a \<Rightarrow> bool) \<Rightarrow> 'a \<Rightarrow> 'a shape \<Rightarrow> bool" where
  "root_not_less lt d Absent = True"
| "root_not_less lt d (Present a c n l r) = (\<not> lt d c)"

fun heap_property :: "('a \<Rightarrow> 'a \<Rightarrow> bool) \<Rightarrow> 'a shape \<Rightarrow> bool" where
  "heap_property lt Absent = True"
| "heap_property lt (Present a d n l r) =
     (root_not_less lt d l \<and> root_not_less lt d r \<and> heap_property lt l \<and> heap_property lt r)"

fun leftist_property :: "'a shape \<Rightarrow> bool" where
  "leftist_property Absent = True"
| "leftist_property (Present a d n l r) =
     (npl_of l \<ge> npl_of r \<and> n = npl_of r + 1 \<and> leftist_property l \<and> leftist_property r)"

definition strict_weak_order :: "('a \<Rightarrow> 'a \<Rightarrow> bool) \<Rightarrow> bool" where
  "strict_weak_order lt \<longleftrightarrow>
     (\<forall>a. \<not> lt a a) \<and>
     (\<forall>a b c. lt a b \<and> lt b c \<longrightarrow> lt a c) \<and>
     (\<forall>a b c. \<not> lt a b \<and> \<not> lt b a \<and> \<not> lt b c \<and> \<not> lt c b \<longrightarrow> \<not> lt a c \<and> \<not> lt c a)"

text \<open>A predicate that never throws, as a comparison object.\<close>

definition total_cmp :: "('a \<Rightarrow> 'a \<Rightarrow> bool) \<Rightarrow> 'a compare" where
  "total_cmp lt a b = Some (lt a b)"

text \<open>
  What \<open>mergeNodes\<close> returns on two trees held by the store \<open>s\<close>, given the merge \<open>res\<close> of
  the trees: the predicate's exception and \<open>s\<close> itself, or the root of the merged tree
  and a store that holds it and differs from \<open>s\<close> only at nodes of the two trees.
\<close>

definition merge_result ::
  "'a store \<Rightarrow> 'a shape \<Rightarrow> 'a shape \<Rightarrow> 'a shape option
     \<Rightarrow> (addr option outcome \<times> 'a store) option \<Rightarrow> bool" where
  "merge_result s t1 t2 res out \<longleftrightarrow>
     (case res of
        None \<Rightarrow> out = Some (Throw predicate_failure, s)
      | Some t \<Rightarrow> (\<exists>s'. out = Some (Ok (ptr t), s') \<and> holds s' t
                    \<and> (\<forall>b. b \<notin> set (addrs t1) \<union> set (addrs t2) \<longrightarrow> s' b = s b)))"

text \<open>
  The structural invariant of a world, whatever the comparison objects do: container
  \<open>q\<close> owns the tree \<open>T q\<close> and its count is the number of nodes of that tree, every tree
  satisfies the leftist property, the trees of different containers share no node, and
  the allocator's next addresses are not live. Under a predicate \<open>lt\<close> that does not
  throw, \<open>world_inv\<close> adds that every container compares with \<open>lt\<close> and every tree
  satisfies the heap property.
\<close>

definition owns :: "'a world \<Rightarrow> qid \<Rightarrow> 'a shape \<Rightarrow> bool" where
  "owns w q t \<longleftrightarrow>
     holds (nodes w) t \<and> distinct (addrs t) \<and> root (queues w q) = ptr t \<and>
     count_pq (queues w q) = length (addrs t)"

definition struct_inv :: "(qid \<Rightarrow> 'a shape) \<Rightarrow> 'a world \<Rightarrow> bool" where
  "struct_inv T w \<longleftrightarrow>
     (\<forall>q. owns w q (T q) \<and> leftist_property (T q)) \<and>
     (\<forall>q q'. q \<noteq> q' \<longrightarrow> set (addrs (T q)) \<inter> set (addrs (T q')) = {}) \<and>
     (\<forall>a. next_addr w \<le> a \<longrightarrow> nodes w a = None)"

definition world_inv :: "('a \<Rightarrow> 'a \<Rightarrow> bool) \<Rightarrow> (qid \<Rightarrow> 'a shape) \<Rightarrow> 'a world \<Rightarrow> bool" where
  "world_inv lt T w \<longleftrightarrow>
     struct_inv T w \<and> (\<forall>q. cmp (queues w q) = total_cmp lt \<and> heap_property lt (T q))"

text \<open>
  The copy of a tree that \<open>copyTree\<close> builds when the allocator hands out \<open>a0\<close>, \<open>a0 + 1\<close>, ...:
  the root first, then the left subtree, then the right one; elements and \<open>npl\<close> values
  are those of the original.
\<close>

fun clone :: "addr \<Rightarrow> 'a shape \<Rightarrow> 'a shape" where
  "clone a0 Absent = Absent"
| "clone a0 (Present a d n l r) =
     Present a0 d n (clone (Suc a0) l) (clone (Suc a0 + length (addrs l)) r)"

text \<open>
  What \<open>copyTree\<close> returns on a tree \<open>t\<close> held by the store of \<open>w\<close>. It returns normally
  with the copy in fresh nodes and every old node as it was; or it throws \<open>bad_alloc\<close>
  with the store as it was; an exception or a fault needs an allocation that fails.
\<close>

definition copy_post :: "'a shape \<Rightarrow> 'a world \<Rightarrow> addr option outcome \<Rightarrow> 'a world \<Rightarrow> bool" where
  "copy_post t w r w' \<longleftrightarrow>
     queues w' = queues w \<and>
     (case r of
        Ok p \<Rightarrow>
          p = ptr (clone (next_addr w) t) \<and> holds (nodes w') (clone (next_addr w) t) \<and>
          (\<forall>b. b < next_addr w \<longrightarrow> nodes w' b = nodes w b) \<and>
          next_addr w' = next_addr w + length (addrs t) \<and>
          (\<forall>b. next_addr w' \<le> b \<longrightarrow> nodes w' b = None) \<and>
          alloc_plan w' = drop (length (addrs t)) (alloc_plan w) \<and>
          released w' = released w
      | Throw e \<Rightarrow>
          e = bad_alloc \<and> nodes w' = nodes w \<and> next_addr w \<le> next_addr w' \<and>
          \<not> list_all id (alloc_plan w)
      | Fault \<Rightarrow> \<not> list_all id (alloc_plan w))"

section \<open>Reachable worlds\<close>

text \<open>
  At the start no node is live and every slot holds an empty container with the
  default comparison object; the coming allocation results are arbitrary. A world is
  reachable by the public operations, whether they return or throw. A fault is
  undefined behaviour and leads nowhere. The copy constructor builds a new object, so
  its source is another slot.
\<close>

definition initial_world :: "'a compare \<Rightarrow> bool list \<Rightarrow> 'a world" where
  "initial_world dflt plan =
     \<lparr>nodes = Map.empty, next_addr = 0, alloc_plan = plan, released = [],
      queues = (\<lambda>_. \<lparr>root = None, count_pq = 0, cmp = dflt\<rparr>)\<rparr>"

inductive reachable :: "'a compare \<Rightarrow> 'a world \<Rightarrow> bool" for dflt :: "'a compare" where
  start: "reachable dflt (initial_world dflt plan)"
| construct: "reachable dflt w \<Longrightarrow> reachable dflt (priority_queue_default dflt w q)"
| copy: "reachable dflt w \<Longrightarrow> this \<noteq> other \<Longrightarrow> priority_queue_copy w this other = Some (r, w')
           \<Longrightarrow> r \<noteq> Fault \<Longrightarrow> reachable dflt w'"
| assign: "reachable dflt w \<Longrightarrow> assign w this other = Some (rq, w') \<Longrightarrow> rq \<noteq> Fault
           \<Longrightarrow> reachable dflt w'"
| push: "reachable dflt w \<Longrightarrow> push w q e = Some (r, w') \<Longrightarrow> r \<noteq> Fault \<Longrightarrow> reachable dflt w'"
| pop: "reachable dflt w \<Longrightarrow> pop w q = Some (r, w') \<Longrightarrow> r \<noteq> Fault \<Longrightarrow> reachable dflt w'"
| merge: "reachable dflt w \<Longrightarrow> merge w this other = Some (r, w') \<Longrightarrow> r \<noteq> Fault
           \<Longrightarrow> reachable dflt w'"

text \<open>A client that calls \<open>top\<close> and then \<open>pop\<close>, \<open>k\<close> times, and collects what \<open>top\<close> returned.\<close>

fun pop_sequence :: "nat \<Rightarrow> 'a world \<Rightarrow> qid \<Rightarrow> ('a list \<times> 'a world) option" where
  "pop_sequence 0 w q = Some ([], w)"
| "pop_sequence (Suc k) w q =
     (case top_pq w q of
        (Ok d, w1) \<Rightarrow>
          Option.bind (pop w1 q) (\<lambda>(r, w2).
            (case r of
               Ok _ \<Rightarrow> map_option (\<lambda>(ds, w3). (d # ds, w3)) (pop_sequence k w2 q)
             | Throw x \<Rightarrow> None
             | Fault \<Rightarrow> None))
      | (Throw x, w1) \<Rightarrow> None
      | (Fault, w1) \<Rightarrow> None)"

text \<open>The elements a tree gives up under \<open>k\<close> removals of its root.\<close>

fun shape_pops :: "'a compare \<Rightarrow> nat \<Rightarrow> 'a shape \<Rightarrow> 'a list option" where
  "shape_pops c 0 t = Some []"
| "shape_pops c (Suc k) Absent = None"
| "shape_pops c (Suc k) (Present a d n l r) =
     (case merge_shape c l r of
        None \<Rightarrow> None
      | Some t \<Rightarrow> map_option ((#) d) (shape_pops c k t))"

text \<open>Two trees with the same structure, elements and \<open>npl\<close> values, at any addresses.\<close>

fun same_tree :: "'a shape \<Rightarrow> 'a shape \<Rightarrow> bool" where
  "same_tree Absent Absent = True"
| "same_tree (Present a d n l r) (Present a' d' n' l' r') =
     (d = d' \<and> n = n' \<and> same_tree l l' \<and> same_tree r r')"
| "same_tree _ _ = False"

text \<open>A client that pushes the elements of a list in order; \<open>None\<close> when a push does not return normally.\<close>

fun pushes :: "'a world \<Rightarrow> qid \<Rightarrow> 'a list \<Rightarrow> 'a world option" where
  "pushes w q [] = Some w"
| "pushes w q (e # es) =
     Option.bind (push w q e) (\<lambda>(r, w1).
       (case r of Ok _ \<Rightarrow> pushes w1 q es | Throw x \<Rightarrow> None | Fault \<Rightarrow> None))"

section \<open>Concrete comparison objects and worlds\<close>

text \<open>
  A comparison that throws when either argument is 0 and on the pair 5, 7, and is
  \<open><\<close> otherwise.
\<close>

definition throwing_less :: "nat compare" where
  "throwing_less a b =
     (if a = 0 \<or> b = 0 \<or> (a = 5 \<and> b = 7) \<or> (a = 7 \<and> b = 5) then None else Some (a < b))"

text \<open>
  Container 0 holds 9 with children 7 and 5 (the result of pushing 9, 7, 5, which never
  compares 7 with 5); container 1 holds the single element 0.
\<close>

definition throwing_world :: "nat world" where
  "throwing_world =
     \<lparr>nodes = [0 \<mapsto> \<lparr>data = 9, left = Some 1, right = Some 2, npl = 1\<rparr>,
               1 \<mapsto> \<lparr>data = 7, left = None, right = None, npl = 0\<rparr>,
               2 \<mapsto> \<lparr>data = 5, left = None, right = None, npl = 0\<rparr>,
               3 \<mapsto> \<lparr>data = 0, left = None, right = None, npl = 0\<rparr>],
      next_addr = 4, alloc_plan = [], released = [],
      queues = (\<lambda>_. \<lparr>root = None, count_pq = 0, cmp = throwing_less\<rparr>)
                 (0 := \<lparr>root = Some 0, count_pq = 3, cmp = throwing_less\<rparr>,
                  1 := \<lparr>root = Some 3, count_pq = 1, cmp = throwing_less\<rparr>)\<rparr>"

text \<open>
  Container 0 holds 9 with children 7 and 5 under \<open><\<close>; the third allocation to come
  throws.
\<close>

definition less_cmp :: "nat compare" where
  "less_cmp a b = Some (a < b)"

definition third_alloc_fails :: "nat world" where
  "third_alloc_fails =
     \<lparr>nodes = [0 \<mapsto> \<lparr>data = 9, left = Some 1, right = Some 2, npl = 1\<rparr>,
               1 \<mapsto> \<lparr>data = 7, left = None, right = None, npl = 0\<rparr>,
               2 \<mapsto> \<lparr>data = 5, left = None, right = None, npl = 0\<rparr>],
      next_addr = 3, alloc_plan = [True, True, False], released = [],
      queues = (\<lambda>_. \<lparr>root = None, count_pq = 0, cmp = less_cmp\<rparr>)
                 (0 := \<lparr>root = Some 0, count_pq = 3, cmp = less_cmp\<rparr>)\<rparr>"

text \<open>The world after pushing 5, 3, 8, 1 into container 0 of the initial world, under \<open><\<close>.\<close>

definition round_trip_world :: "nat world" where
  "round_trip_world =
     \<lparr>nodes = [0 \<mapsto> \<lparr>data = 5, left = Some 1, right = None, npl = 0\<rparr>,
               1 \<mapsto> \<lparr>data = 3, left = None, right = None, npl = 0\<rparr>,
               2 \<mapsto> \<lparr>data = 8, left = Some 0, right = Some 3, npl = 1\<rparr>,
               3 \<mapsto> \<lparr>data = 1, left = None, right = None, npl = 0\<rparr>],
      next_addr = 4, alloc_plan = [], released = [],
      queues = (\<lambda>_. \<lparr>root = None, count_pq = 0, cmp = total_cmp (<)\<rparr>)
                 (0 := \<lparr>root = Some 2, count_pq = 4, cmp = total_cmp (<)\<rparr>)\<rparr>"

definition round_trip_shape :: "nat shape" where
  "round_trip_shape =
     Present 2 8 1 (Present 0 5 0 (Present 1 3 0 Absent Absent) Absent) (Present 3 1 0 Absent Absent)"

text \<open>The same world after pushing 4 and 9 into container 1.\<close>

definition two_queues_world :: "nat world" where
  "two_queues_world =
     \<lparr>nodes = [0 \<mapsto> \<lparr>data = 5, left = Some 1, right = None, npl = 0\<rparr>,
               1 \<mapsto> \<lparr>data = 3, left = None, right = None, npl = 0\<rparr>,
               2 \<mapsto> \<lparr>data = 8, left = Some 0, right = Some 3, npl = 1\<rparr>,
               3 \<mapsto> \<lparr>data = 1, left = None, right = None, npl = 0\<rparr>,
               4 \<mapsto> \<lparr>data = 4, left = None, right = None, npl = 0\<rparr>,
               5 \<mapsto> \<lparr>data = 9, left = Some 4, right = None, npl = 0\<rparr>],
      next_addr = 6, alloc_plan = [], released = [],
      queues = (\<lambda>_. \<lparr>root = None, count_pq = 0, cmp = total_cmp (<)\<rparr>)
                 (0 := \<lparr>root = Some 2, count_pq = 4, cmp = total_cmp (<)\<rparr>,
                  1 := \<lparr>root = Some 5, count_pq = 2, cmp = total_cmp (<)\<rparr>)\<rparr>"

definition second_shape :: "nat shape" where
  "second_shape = Present 5 9 0 (Present 4 4 0 Absent Absent) Absent"

text \<open>That world after \<open>merge\<close> of container 1 into container 0.\<close>

definition merged_world :: "nat world" where
  "merged_world =
     \<lparr>nodes = [0 \<mapsto> \<lparr>data = 5, left = Some 1, right = None, npl = 0\<rparr>,
               1 \<mapsto> \<lparr>data = 3, left = None, right = None, npl = 0\<rparr>,
               2 \<mapsto> \<lparr>data = 8, left = Some 0, right = Some 3, npl = 1\<rparr>,
               3 \<mapsto> \<lparr>data = 1, left = None, right = None, npl = 0\<rparr>,
               4 \<mapsto> \<lparr>data = 4, left = None, right = None, npl = 0\<rparr>,
               5 \<mapsto> \<lparr>data = 9, left = Some 2, right = Some 4, npl = 1\<rparr>],
      next_addr = 6, alloc_plan = [], released = [],
      queues = (\<lambda>_. \<lparr>root = None, count_pq = 0, cmp = total_cmp (<)\<rparr>)
                 (0 := \<lparr>root = Some 5, count_pq = 6, cmp = total_cmp (<)\<rparr>,
                  1 := \<lparr>root = None, count_pq = 0, cmp = total_cmp (<)\<rparr>)\<rparr>"

definition merged_shape :: "nat shape" where
  "merged_shape = Present 5 9 1 round_trip_shape (Present 4 4 0 Absent Absent)"

text \<open>The round-trip world after container 1 has been made a copy of container 0.\<close>

definition copied_world :: "nat world" where
  "copied_world =
     \<lparr>nodes = [0 \<mapsto> \<lparr>data = 5, left = Some 1, right = None, npl = 0\<rparr>,
               1 \<mapsto> \<lparr>data = 3, left = None, right = None, npl = 0\<rparr>,
               2 \<mapsto> \<lparr>data = 8, left = Some 0, right = Some 3, npl = 1\<rparr>,
               3 \<mapsto> \<lparr>data = 1, left = None, right = None, npl = 0\<rparr>,
               4 \<mapsto> \<lparr>data = 8, left = Some 5, right = Some 7, npl = 1\<rparr>,
               5 \<mapsto> \<lparr>data = 5, left = Some 6, right = None, npl = 0\<rparr>,
               6 \<mapsto> \<lparr>data = 3, left = None, right = None, npl = 0\<rparr>,
               7 \<mapsto> \<lparr>data = 1, left = None, right = None, npl = 0\<rparr>],
      next_addr = 8, alloc_plan = [], released = [],
      queues = (\<lambda>_. \<lparr>root = None, count_pq = 0, cmp = total_cmp (<)\<rparr>)
                 (0 := \<lparr>root = Some 2, count_pq = 4, cmp = total_cmp (<)\<rparr>,
                  1 := \<lparr>root = Some 4, count_pq = 4, cmp = total_cmp (<)\<rparr>)\<rparr>"

definition copied_shape :: "nat shape" where
  "copied_shape =
     Present 4 8 1 (Present 5 5 0 (Present 6 3 0 Absent Absent) Absent) (Present 7 1 0 Absent Absent)"

text \<open>The round-trip world when the fourth allocation to come throws.\<close>

definition fourth_alloc_fails :: "nat world" where
  "fourth_alloc_fails = round_trip_world\<lparr>alloc_plan := [True, True, True, False]\<rparr>"

section \<open>Failure of the comparison inside the merge primitive\<close>

text \<open>
  \<open>mergeNodes\<close> evaluates every comparison on the way down and writes links and \<open>npl\<close>
  only after its recursive call has returned. So when it leaves by an exception, the
  exception is the predicate's and the store is the one it was given. This holds for
  every store, also one that is not a tree.
\<close>

lemma mergeNodes_Throw_aux:
  assumes "mergeNodes c s h1 h2 = Some y"
  shows "\<forall>e s'. y = (Throw e, s') \<longrightarrow> s' = s \<and> e = predicate_failure"
proof (rule mergeNodes.raw_induct
    [where P = "\<lambda>c s h1 h2 y. \<forall>e s'. y = (Throw e, s') \<longrightarrow> s' = s \<and> e = predicate_failure", OF _ assms],
    goal_cases)
  case (1 f c s h1 h2 y)
  have fin: "s' = s \<and> e = predicate_failure"
    if "f c s h (Some k) = Some (r, s1)"
      and "(case r of
          Ok m \<Rightarrow> (case mergeNodes_relink s1 h1' m of
                     None \<Rightarrow> Some (Fault, s1)
                   | Some s2 \<Rightarrow> Some (Ok (Some h1'), s2))
        | Throw e \<Rightarrow> Some (Throw e, s1)
        | Fault \<Rightarrow> Some (Fault, s1)) = Some (Throw e, s')" for h k r s1 h1' e s'
    using that 1(1)[OF that(1)] by (cases r) (auto split: option.splits)
  show ?case
    using 1(2)
    by (auto split: option.splits prod.splits if_splits simp: Let_def bind_eq_Some_conv dest!: fin)
qed

lemma mergeNodes_Throw:
  "mergeNodes c s h1 h2 = Some (Throw e, s') \<Longrightarrow> s' = s \<and> e = predicate_failure"
  using mergeNodes_Throw_aux by blast

lemma set_queue_same [simp]:
  "set_queue w q (\<lambda>p. p\<lparr>root := root (queues w q), count_pq := count_pq (queues w q)\<rparr>) = w"
  by (simp add: set_queue_def)

lemma push_predicate_throws:
  assumes "new_node w e = (Ok a, w1)"
    and "mergeNodes (cmp (queues w1 this)) (nodes w1) (root (queues w1 this)) (Some a) = Some (Throw x, s')"
  shows "\<exists>w'. push w this e = Some (Throw runtime_error, w') \<and> queues w' = queues w
            \<and> nodes w' = (nodes w)(next_addr w := None)"
proof -
  have s': "s' = nodes w1" using mergeNodes_Throw[OF assms(2)] by simp
  have a: "a = next_addr w" and w1: "nodes w1 a \<noteq> None" "queues w1 = queues w"
    "nodes w1 = (nodes w)(a \<mapsto> \<lparr>data = e, left = None, right = None, npl = 0\<rparr>)"
    using assms(1) by (auto simp: new_node_def split: list.splits bool.splits)
  show ?thesis
    using assms w1 unfolding s' a
    by (auto simp: push_def delete_node_def set_queue_def Let_def split: option.splits)
qed

lemma new_node_cases:
  "new_node w e = (r, w1) \<Longrightarrow>
     (r = Throw bad_alloc \<and> nodes w1 = nodes w \<and> queues w1 = queues w) \<or>
     (r = Ok (next_addr w) \<and> queues w1 = queues w \<and>
      nodes w1 = (nodes w)(next_addr w \<mapsto> \<lparr>data = e, left = None, right = None, npl = 0\<rparr>))"
  by (auto simp: new_node_def split: list.splits bool.splits)

lemma push_Throw_cases:
  assumes "push w this e = Some (Throw x, w')"
  shows "x = bad_alloc \<or> (x = runtime_error \<and>
    (\<exists>a w1 s'. new_node w e = (Ok a, w1) \<and>
       mergeNodes (cmp (queues w1 this)) (nodes w1) (root (queues w1 this)) (Some a)
         = Some (Throw predicate_failure, s')))"
proof -
  obtain r0 w1 where nn: "new_node w e = (r0, w1)" by fastforce
  from new_node_cases[OF nn] show ?thesis
  proof (elim disjE conjE)
    assume "r0 = Throw bad_alloc"
    with assms nn show ?thesis by (simp add: push_def)
  next
    assume r0: "r0 = Ok (next_addr w)"
    from assms nn r0 obtain r s where
      m: "mergeNodes (cmp (queues w1 this)) (nodes w1) (root (queues w1 this)) (Some (next_addr w)) = Some (r, s)"
      by (auto simp: push_def Let_def bind_eq_Some_conv)
    show ?thesis
    proof (cases r)
      case (Ok m')
      with assms nn r0 m show ?thesis by (simp add: push_def Let_def)
    next
      case (Throw y)
      with mergeNodes_Throw m have "y = predicate_failure" by blast
      moreover from push_predicate_throws[OF nn[unfolded r0] m[unfolded Throw]] assms
      have "x = runtime_error" by auto
      ultimately show ?thesis using nn r0 m Throw by blast
    next
      case Fault
      with assms nn r0 m show ?thesis by (simp add: push_def Let_def)
    qed
  qed
qed


lemma world_nodes_same [simp]: "w\<lparr>nodes := nodes w\<rparr> = w"
  by simp

lemma set_queue_root_count [simp]:
  "root (queues w q) = r \<Longrightarrow> count_pq (queues w q) = n \<Longrightarrow>
   set_queue w q (\<lambda>p. p\<lparr>root := r, count_pq := n\<rparr>) = w"
  by (auto simp: set_queue_def)

lemma pop_predicate_throws:
  assumes "root (queues w this) = Some p" and "nodes w p = Some n"
    and "mergeNodes (cmp (queues w this)) (nodes w) (left n) (right n) = Some (Throw x, s')"
  shows "pop w this = Some (Throw runtime_error, w)"
proof -
  have "s' = nodes w" using mergeNodes_Throw[OF assms(3)] by simp
  with assms show ?thesis by (simp add: pop_def Let_def)
qed

lemma delete_node_cases:
  "delete_node w p = (r, w1) \<Longrightarrow> r = Ok () \<or> r = Fault"
  by (auto simp: delete_node_def split: option.splits)

lemma pop_Throw_cases:
  assumes "pop w this = Some (Throw x, w')"
  shows "(x = container_is_empty \<and> root (queues w this) = None \<and> w' = w) \<or>
    (x = runtime_error \<and> w' = w \<and>
      (\<exists>p n s'. root (queues w this) = Some p \<and> nodes w p = Some n \<and>
         mergeNodes (cmp (queues w this)) (nodes w) (left n) (right n)
           = Some (Throw predicate_failure, s')))"
proof (cases "root (queues w this)")
  case None
  with assms show ?thesis by (simp add: pop_def)
next
  case (Some p)
  show ?thesis
  proof (cases "nodes w p")
    case None
    with assms Some show ?thesis by (simp add: pop_def)
  next
    case (Some n)
    note rt = \<open>root (queues w this) = Some p\<close>
    from assms rt Some obtain r s where
      m: "mergeNodes (cmp (queues w this)) (nodes w) (left n) (right n) = Some (r, s)"
      by (auto simp: pop_def Let_def bind_eq_Some_conv)
    show ?thesis
    proof (cases r)
      case (Ok m')
      obtain r1 w1 where d: "delete_node (set_queue (w\<lparr>nodes := s\<rparr>) this (\<lambda>q. q\<lparr>root := m'\<rparr>)) p = (r1, w1)"
        by fastforce
      from delete_node_cases[OF d] assms rt Some m Ok d show ?thesis
        by (auto simp: pop_def Let_def)
    next
      case (Throw y)
      with mergeNodes_Throw m have "y = predicate_failure" by blast
      moreover from pop_predicate_throws[OF rt Some m[unfolded Throw]] assms
      have "x = runtime_error" "w' = w" by auto
      ultimately show ?thesis using rt Some m Throw by blast
    next
      case Fault
      with assms rt Some m show ?thesis by (simp add: pop_def Let_def)
    qed
  qed
qed

lemma merge_restore [simp]:
  "set_queue (set_queue (set_queue (set_queue w a (\<lambda>q. q\<lparr>root := root (queues w a)\<rparr>))
      b (\<lambda>q. q\<lparr>root := root (queues w b)\<rparr>))
      a (\<lambda>q. q\<lparr>count_pq := count_pq (queues w a)\<rparr>))
      b (\<lambda>q. q\<lparr>count_pq := count_pq (queues w b)\<rparr>) = w"
  by (auto simp: set_queue_def fun_eq_iff intro!: world.equality)

lemma merge_predicate_throws:
  assumes "this \<noteq> other"
    and "mergeNodes (cmp (queues w this)) (nodes w) (root (queues w this)) (root (queues w other))
           = Some (Throw x, s')"
  shows "merge w this other = Some (Throw runtime_error, w)"
proof -
  have "s' = nodes w" using mergeNodes_Throw[OF assms(2)] by simp
  with assms show ?thesis by (simp add: merge_def Let_def)
qed

lemma merge_Throw_cases:
  assumes "merge w this other = Some (Throw x, w')"
  shows "x = runtime_error \<and> w' = w \<and> this \<noteq> other \<and>
      (\<exists>s'. mergeNodes (cmp (queues w this)) (nodes w) (root (queues w this)) (root (queues w other))
           = Some (Throw predicate_failure, s'))"
proof (cases "this = other")
  case True
  with assms show ?thesis by (simp add: merge_def)
next
  case False
  from assms False obtain r s where
    m: "mergeNodes (cmp (queues w this)) (nodes w) (root (queues w this)) (root (queues w other)) = Some (r, s)"
    by (auto simp: merge_def Let_def bind_eq_Some_conv)
  show ?thesis
  proof (cases r)
    case (Ok m')
    with assms False m show ?thesis by (simp add: merge_def Let_def)
  next
    case (Throw y)
    with mergeNodes_Throw m have "y = predicate_failure" by blast
    moreover from merge_predicate_throws[OF False m[unfolded Throw]] assms
    have "x = runtime_error" "w' = w" by auto
    ultimately show ?thesis using False m Throw by blast
  next
    case Fault
    with assms False m show ?thesis by (simp add: merge_def Let_def)
  qed
qed

text \<open>
  C1. When the predicate throws inside the merge that \<open>push\<close>, \<open>pop\<close> or \<open>merge\<close> runs, the
  operation reports \<open>runtime_error\<close>, never the predicate's own exception, and the slots
  and the node store are those before the call: no root, count, link or \<open>npl\<close> has
  changed (for \<open>merge\<close> this covers both containers; \<open>pop\<close> and \<open>merge\<close> restore the whole
  world, \<open>push\<close> has consumed one allocation and released it). The hypothesis is that
  the allocator hands out an address that is not live. The first three parts say that
  an exception leaving the operation, other than the documented \<open>bad_alloc\<close> of \<open>push\<close>
  and \<open>container_is_empty\<close> of \<open>pop\<close>, is \<open>runtime_error\<close> with the state restored; the last
  three that a predicate failure in the operation's merge is reported so.
\<close>

theorem predicate_failure_rollback:
  assumes "nodes w (next_addr w) = None"
  shows
    "(\<forall>x w'. push w q e = Some (Throw x, w') \<and> x \<noteq> bad_alloc
        \<longrightarrow> x = runtime_error \<and> queues w' = queues w \<and> nodes w' = nodes w)
   \<and> (\<forall>x w'. pop w q = Some (Throw x, w') \<and> x \<noteq> container_is_empty
        \<longrightarrow> x = runtime_error \<and> w' = w)
   \<and> (\<forall>x w'. merge w q q' = Some (Throw x, w') \<longrightarrow> x = runtime_error \<and> w' = w)
   \<and> (\<forall>a w1 s'. new_node w e = (Ok a, w1)
          \<and> mergeNodes (cmp (queues w1 q)) (nodes w1) (root (queues w1 q)) (Some a)
              = Some (Throw predicate_failure, s')
        \<longrightarrow> (\<exists>w'. push w q e = Some (Throw runtime_error, w')))
   \<and> (\<forall>p n s'. root (queues w q) = Some p \<and> nodes w p = Some n
          \<and> mergeNodes (cmp (queues w q)) (nodes w) (left n) (right n)
              = Some (Throw predicate_failure, s')
        \<longrightarrow> pop w q = Some (Throw runtime_error, w))
   \<and> (\<forall>s'. q \<noteq> q'
          \<and> mergeNodes (cmp (queues w q)) (nodes w) (root (queues w q)) (root (queues w q'))
              = Some (Throw predicate_failure, s')
        \<longrightarrow> merge w q q' = Some (Throw runtime_error, w))"
proof (intro conjI allI impI)
  fix x w'
  assume h: "push w q e = Some (Throw x, w') \<and> x \<noteq> bad_alloc"
  with push_Throw_cases[of w q e x w'] obtain a w1 s' where
    x: "x = runtime_error" and nn: "new_node w e = (Ok a, w1)"
    and m: "mergeNodes (cmp (queues w1 q)) (nodes w1) (root (queues w1 q)) (Some a)
              = Some (Throw predicate_failure, s')"
    by blast
  from push_predicate_throws[OF nn m] h assms
  have "queues w' = queues w \<and> nodes w' = nodes w" by auto
  with x show "x = runtime_error" "queues w' = queues w" "nodes w' = nodes w" by simp_all
next
  fix x w'
  assume "pop w q = Some (Throw x, w') \<and> x \<noteq> container_is_empty"
  with pop_Throw_cases[of w q x w'] show "x = runtime_error" "w' = w" by blast+
next
  fix x w'
  assume "merge w q q' = Some (Throw x, w')"
  with merge_Throw_cases[of w q q' x w'] show "x = runtime_error" "w' = w" by blast+
next
  fix a w1 s'
  assume h: "new_node w e = (Ok a, w1)
          \<and> mergeNodes (cmp (queues w1 q)) (nodes w1) (root (queues w1 q)) (Some a)
              = Some (Throw predicate_failure, s')"
  from push_predicate_throws[OF h[THEN conjunct1] h[THEN conjunct2]]
  show "\<exists>w'. push w q e = Some (Throw runtime_error, w')" by blast
next
  fix p n s'
  assume h: "root (queues w q) = Some p \<and> nodes w p = Some n
          \<and> mergeNodes (cmp (queues w q)) (nodes w) (left n) (right n)
              = Some (Throw predicate_failure, s')"
  from pop_predicate_throws[OF h[THEN conjunct1] h[THEN conjunct2, THEN conjunct1]
      h[THEN conjunct2, THEN conjunct2]]
  show "pop w q = Some (Throw runtime_error, w)" .
next
  fix s'
  assume h: "q \<noteq> q'
          \<and> mergeNodes (cmp (queues w q)) (nodes w) (root (queues w q)) (root (queues w q'))
              = Some (Throw predicate_failure, s')"
  from merge_predicate_throws[OF h[THEN conjunct1] h[THEN conjunct2]]
  show "merge w q q' = Some (Throw runtime_error, w)" .
qed

theorem predicate_failure_rollback_witness:
  "nodes throwing_world (next_addr throwing_world) = None
   \<and> (\<exists>w'. push throwing_world 0 0 = Some (Throw runtime_error, w')
          \<and> queues w' = queues throwing_world \<and> nodes w' = nodes throwing_world)
   \<and> pop throwing_world 0 = Some (Throw runtime_error, throwing_world)
   \<and> merge throwing_world 0 1 = Some (Throw runtime_error, throwing_world)"
proof -
  have fresh: "nodes throwing_world (next_addr throwing_world) = None"
    by (simp add: throwing_world_def)
  note T = predicate_failure_rollback[OF fresh, of 0 0 1]
  have m_pop: "root (queues throwing_world 0) = Some 0
      \<and> nodes throwing_world 0 = Some \<lparr>data = 9, left = Some 1, right = Some 2, npl = 1\<rparr>
      \<and> mergeNodes (cmp (queues throwing_world 0)) (nodes throwing_world)
           (left \<lparr>data = 9, left = Some 1, right = Some 2, npl = 1\<rparr>)
           (right \<lparr>data = 9::nat, left = Some 1, right = Some 2, npl = 1\<rparr>)
          = Some (Throw predicate_failure, nodes throwing_world)"
    by (simp add: mergeNodes.simps throwing_world_def throwing_less_def)
  have m_merge: "(0::nat) \<noteq> 1
      \<and> mergeNodes (cmp (queues throwing_world 0)) (nodes throwing_world)
           (root (queues throwing_world 0)) (root (queues throwing_world 1))
          = Some (Throw predicate_failure, nodes throwing_world)"
    by (simp add: mergeNodes.simps throwing_world_def throwing_less_def)
  have m_push: "\<exists>w1 s'. new_node throwing_world 0 = (Ok 4, w1)
      \<and> mergeNodes (cmp (queues w1 0)) (nodes w1) (root (queues w1 0)) (Some 4)
          = Some (Throw predicate_failure, s')"
    by (simp add: mergeNodes.simps throwing_world_def throwing_less_def new_node_def)
  from m_push T obtain w' where p: "push throwing_world 0 0 = Some (Throw runtime_error, w')"
    by blast
  with T have "queues w' = queues throwing_world \<and> nodes w' = nodes throwing_world"
    by blast
  with p fresh m_pop m_merge T show ?thesis by blast
qed

section \<open>The empty-container check\<close>

text \<open>
  C5. \<open>top\<close> and \<open>pop\<close> test \<open>root\<close> before anything else. The hypothesis is the container
  invariant of the data model, \<open>count = 0\<close> exactly when the root is absent. Then: each
  raises \<open>container_is_empty\<close> exactly when the container holds no element; \<open>pop\<close>
  leaves the world unchanged when it raises it; \<open>push\<close> and \<open>merge\<close> never raise it (so
  neither a rollback nor a predicate failure produces it); \<open>top\<close> never changes the
  world, and on a live root returns the root's element.
\<close>

theorem empty_container_error:
  assumes "count_pq (queues w q) = 0 \<longleftrightarrow> root (queues w q) = None"
  shows
    "(fst (top_pq w q) = Throw container_is_empty \<longleftrightarrow> count_pq (queues w q) = 0)
   \<and> ((\<exists>w'. pop w q = Some (Throw container_is_empty, w')) \<longleftrightarrow> count_pq (queues w q) = 0)
   \<and> (\<forall>w'. pop w q = Some (Throw container_is_empty, w') \<longrightarrow> w' = w)
   \<and> (\<forall>x w'. push w q e = Some (Throw x, w') \<longrightarrow> x \<noteq> container_is_empty)
   \<and> (\<forall>x w'. merge w q q' = Some (Throw x, w') \<longrightarrow> x \<noteq> container_is_empty)
   \<and> snd (top_pq w q) = w
   \<and> (\<forall>p n. root (queues w q) = Some p \<and> nodes w p = Some n
        \<longrightarrow> fst (top_pq w q) = Ok (data n))"
proof (intro conjI allI impI)
  show "fst (top_pq w q) = Throw container_is_empty \<longleftrightarrow> count_pq (queues w q) = 0"
    using assms by (auto simp: top_pq_def split: option.splits)
next
  show "(\<exists>w'. pop w q = Some (Throw container_is_empty, w')) \<longleftrightarrow> count_pq (queues w q) = 0"
  proof
    assume "\<exists>w'. pop w q = Some (Throw container_is_empty, w')"
    then obtain w' where "pop w q = Some (Throw container_is_empty, w')" ..
    from pop_Throw_cases[OF this] have "root (queues w q) = None" by auto
    with assms show "count_pq (queues w q) = 0" by simp
  next
    assume "count_pq (queues w q) = 0"
    with assms have "root (queues w q) = None" by simp
    then show "\<exists>w'. pop w q = Some (Throw container_is_empty, w')" by (simp add: pop_def)
  qed
next
  fix w'
  assume "pop w q = Some (Throw container_is_empty, w')"
  from pop_Throw_cases[OF this] show "w' = w" by auto
next
  fix x w'
  assume "push w q e = Some (Throw x, w')"
  from push_Throw_cases[OF this] show "x \<noteq> container_is_empty" by auto
next
  fix x w'
  assume "merge w q q' = Some (Throw x, w')"
  from merge_Throw_cases[OF this] show "x \<noteq> container_is_empty" by auto
next
  show "snd (top_pq w q) = w"
    by (simp add: top_pq_def split: option.splits)
next
  fix p n
  assume "root (queues w q) = Some p \<and> nodes w p = Some n"
  then show "fst (top_pq w q) = Ok (data n)" by (simp add: top_pq_def)
qed

theorem empty_container_error_witness:
  "(count_pq (queues throwing_world 2) = 0 \<longleftrightarrow> root (queues throwing_world 2) = None)
   \<and> fst (top_pq throwing_world 2) = Throw container_is_empty
   \<and> pop throwing_world 2 = Some (Throw container_is_empty, throwing_world)
   \<and> (count_pq (queues throwing_world 0) = 0 \<longleftrightarrow> root (queues throwing_world 0) = None)
   \<and> fst (top_pq throwing_world 0) = Ok 9
   \<and> fst (top_pq throwing_world 0) \<noteq> Throw container_is_empty"
proof -
  have e: "count_pq (queues throwing_world 2) = 0 \<longleftrightarrow> root (queues throwing_world 2) = None"
    and z: "count_pq (queues throwing_world 2) = 0"
    by (simp_all add: throwing_world_def)
  have n: "count_pq (queues throwing_world 0) = 0 \<longleftrightarrow> root (queues throwing_world 0) = None"
    and l: "root (queues throwing_world 0) = Some 0
      \<and> nodes throwing_world 0 = Some \<lparr>data = 9, left = Some 1, right = Some 2, npl = 1\<rparr>"
    and c: "count_pq (queues throwing_world 0) \<noteq> 0"
    by (simp_all add: throwing_world_def)
  note E = empty_container_error[OF e, of 0 0]
  note N = empty_container_error[OF n, of 0 0]
  from E z have "fst (top_pq throwing_world 2) = Throw container_is_empty" by blast
  moreover from E z have "pop throwing_world 2 = Some (Throw container_is_empty, throwing_world)"
    by blast
  moreover from N l have "fst (top_pq throwing_world 0) = Ok 9" by fastforce
  moreover from N c have "fst (top_pq throwing_world 0) \<noteq> Throw container_is_empty" by blast
  ultimately show ?thesis using e n by blast
qed

section \<open>Self-assignment\<close>

text \<open>
  C10. \<open>operator=\<close> compares \<open>this\<close> with \<open>&other\<close> first. Assigning a container to itself
  returns the container itself and leaves the whole world as it was: its root, count
  and comparison object, the node store, the allocator and the release log.
\<close>

theorem self_assignment_noop: "assign w q q = Some (Ok q, w)"
  by (simp add: assign_def)

section \<open>The merge primitive on trees\<close>

text \<open>
  On two disjoint trees held by the store, \<open>mergeNodes\<close> returns, computes the merge
  \<open>merge_shape\<close> of the trees, and writes only to their nodes.
\<close>

lemma holds_frame: "holds s t \<Longrightarrow> (\<forall>a\<in>set (addrs t). s' a = s a) \<Longrightarrow> holds s' t"
  by (induction t) auto

lemma holds_upd: "holds s t \<Longrightarrow> a \<notin> set (addrs t) \<Longrightarrow> holds (s(a := x)) t"
  by (erule holds_frame) auto

lemma getNpl_holds: "holds s t \<Longrightarrow> getNpl s (ptr t) = Some (npl_of t)"
  by (cases t) auto

lemma merge_shape_addrs:
  "merge_shape c t1 t2 = Some t \<Longrightarrow> mset (addrs t) = mset (addrs t1) + mset (addrs t2)"
  by (induction c t1 t2 arbitrary: t rule: merge_shape.induct)
     (auto simp: join_def split: option.splits if_splits)

lemma merge_shape_set:
  "merge_shape c t1 t2 = Some t \<Longrightarrow> set (addrs t) = set (addrs t1) \<union> set (addrs t2)"
  using merge_shape_addrs[of c t1 t2 t] by (metis set_mset_mset set_mset_union)

lemma relink_holds:
  assumes "s a = Some \<lparr>data = d, left = ptr l, right = x, npl = n\<rparr>"
    and "holds s l" and "holds s m" and "a \<notin> set (addrs l)" and "a \<notin> set (addrs m)"
  shows "\<exists>s'. mergeNodes_relink s a (ptr m) = Some s' \<and> holds s' (join a d l m)
           \<and> (\<forall>b. b \<noteq> a \<longrightarrow> s' b = s b)"
proof -
  have nl: "getNpl (s(a := y)) (ptr l) = Some (npl_of l)"
    and nm: "getNpl (s(a := y)) (ptr m) = Some (npl_of m)" for y
    using assms by (simp_all add: getNpl_holds holds_upd)
  have hl: "holds (s(a := y)) l" and hm: "holds (s(a := y)) m" for y
    using assms by (simp_all add: holds_upd)
  show ?thesis
  proof (cases "npl_of l < npl_of m")
    case True
    then show ?thesis using assms(1) 
      apply (simp add: mergeNodes_relink_def join_def Let_def)
      apply (simp add: nl nm hl hm)
      done
  next
    case False
    then show ?thesis using assms(1)
      apply (simp add: mergeNodes_relink_def join_def Let_def)
      apply (simp add: nl nm hl hm)
      done
  qed
qed

lemma mergeNodes_tail:
  assumes w: "holds s (Present aw dw nw lw rw)" and l: "holds s lo"
    and d: "distinct (addrs (Present aw dw nw lw rw) @ addrs lo)"
    and IH: "merge_result s rw lo (merge_shape c rw lo) (mergeNodes c s (ptr rw) (ptr lo))"
  shows "merge_result s (Present aw dw nw lw rw) lo
           (map_option (join aw dw lw) (merge_shape c rw lo))
           (Option.bind (mergeNodes c s (ptr rw) (ptr lo)) (\<lambda>(r, s1).
              (case r of
                 Ok m \<Rightarrow> (case mergeNodes_relink s1 aw m of
                            None \<Rightarrow> Some (Fault, s1)
                          | Some s2 \<Rightarrow> Some (Ok (Some aw), s2))
               | Throw e \<Rightarrow> Some (Throw e, s1)
               | Fault \<Rightarrow> Some (Fault, s1))))"
proof (cases "merge_shape c rw lo")
  case None
  with IH show ?thesis by (simp add: merge_result_def)
next
  case (Some m)
  with IH obtain s1 where
    r: "mergeNodes c s (ptr rw) (ptr lo) = Some (Ok (ptr m), s1)" and hm: "holds s1 m"
    and fr: "\<And>b. b \<notin> set (addrs rw) \<union> set (addrs lo) \<Longrightarrow> s1 b = s b"
    by (auto simp: merge_result_def)
  have am: "set (addrs m) = set (addrs rw) \<union> set (addrs lo)"
    using merge_shape_set[OF Some] .
  have aw: "s1 aw = Some \<lparr>data = dw, left = ptr lw, right = ptr rw, npl = nw\<rparr>"
    using w d fr[of aw] by auto
  have "s1 a = s a" if "a \<in> set (addrs lw)" for a
    using that d by (intro fr) auto
  with w have hl: "holds s1 lw"
    by (intro holds_frame[of s lw s1]) auto
  from relink_holds[OF aw hl hm] d am obtain s2 where
    s2: "mergeNodes_relink s1 aw (ptr m) = Some s2" "holds s2 (join aw dw lw m)"
      "\<And>b. b \<noteq> aw \<Longrightarrow> s2 b = s1 b"
    by auto
  have "ptr (join aw dw lw m) = Some aw" by (simp add: join_def)
  moreover have "s2 b = s b" if "b \<notin> set (addrs (Present aw dw nw lw rw)) \<union> set (addrs lo)" for b
    using that s2(3)[of b] fr[of b] by auto
  ultimately show ?thesis using Some r s2
    by (auto simp: merge_result_def)
qed

lemma mergeNodes_refines:
  assumes "holds s t1" and "holds s t2" and "distinct (addrs t1 @ addrs t2)"
  shows "merge_result s t1 t2 (merge_shape c t1 t2) (mergeNodes c s (ptr t1) (ptr t2))"
  using assms
proof (induction c t1 t2 rule: merge_shape.induct)
  case (1 c t2)
  then show ?case
    by (cases t2) (simp_all add: merge_result_def mergeNodes.simps)
next
  case (2 c a1 d1 n1 l1 r1)
  then show ?case by (simp add: merge_result_def mergeNodes.simps)
next
  case (3 c a1 d1 n1 l1 r1 a2 d2 n2 l2 r2)
  let ?t1 = "Present a1 d1 n1 l1 r1" and ?t2 = "Present a2 d2 n2 l2 r2"
  show ?case
  proof (cases "c d1 d2")
    case None
    with 3(3,4) show ?thesis
      by (subst mergeNodes.simps) (simp add: merge_result_def)
  next
    case (Some b)
    show ?thesis
    proof (cases b)
      case True
      have IH: "merge_result s r2 ?t1 (merge_shape c r2 ?t1) (mergeNodes c s (ptr r2) (ptr ?t1))"
        using 3(1)[OF Some True] 3(3,4,5) by auto
      have d': "distinct (addrs ?t2 @ addrs ?t1)" using 3(5) by auto
      from mergeNodes_tail[OF 3(4) 3(3) d' IH]
      have "merge_result s ?t1 ?t2 (merge_shape c ?t1 ?t2)
         (Option.bind (mergeNodes c s (ptr r2) (ptr ?t1)) (\<lambda>(r, s1).
              (case r of
                 Ok m \<Rightarrow> (case mergeNodes_relink s1 a2 m of
                            None \<Rightarrow> Some (Fault, s1)
                          | Some s2 \<Rightarrow> Some (Ok (Some a2), s2))
               | Throw e \<Rightarrow> Some (Throw e, s1)
               | Fault \<Rightarrow> Some (Fault, s1))))"
        using Some True by (auto simp: merge_result_def Un_commute split: option.splits)
      then show ?thesis using Some True 3(3,4)
        by (subst mergeNodes.simps) simp
    next
      case False
      have IH: "merge_result s r1 ?t2 (merge_shape c r1 ?t2) (mergeNodes c s (ptr r1) (ptr ?t2))"
        using 3(2)[OF Some False] 3(3,4,5) by auto
      from mergeNodes_tail[OF 3(3) 3(4) 3(5) IH]
      have "merge_result s ?t1 ?t2 (merge_shape c ?t1 ?t2)
         (Option.bind (mergeNodes c s (ptr r1) (ptr ?t2)) (\<lambda>(r, s1).
              (case r of
                 Ok m \<Rightarrow> (case mergeNodes_relink s1 a1 m of
                            None \<Rightarrow> Some (Fault, s1)
                          | Some s2 \<Rightarrow> Some (Ok (Some a1), s2))
               | Throw e \<Rightarrow> Some (Throw e, s1)
               | Fault \<Rightarrow> Some (Fault, s1))))"
        using Some False by simp
      then show ?thesis using Some False 3(3,4)
        by (subst mergeNodes.simps) simp
    qed
  qed
qed

text \<open>The merge of two trees keeps the leftist and the heap property.\<close>

lemma leftist_join: "leftist_property l \<Longrightarrow> leftist_property m \<Longrightarrow> leftist_property (join a d l m)"
  by (simp add: join_def)

lemma heap_join:
  "heap_property lt l \<Longrightarrow> heap_property lt m \<Longrightarrow> root_not_less lt d l \<Longrightarrow> root_not_less lt d m
    \<Longrightarrow> heap_property lt (join a d l m)"
  by (simp add: join_def)

lemma merge_shape_leftist:
  "merge_shape c t1 t2 = Some t \<Longrightarrow> leftist_property t1 \<Longrightarrow> leftist_property t2
    \<Longrightarrow> leftist_property t"
proof (induction c t1 t2 arbitrary: t rule: merge_shape.induct)
  case (3 c a1 d1 n1 l1 r1 a2 d2 n2 l2 r2)
  from 3(3) obtain b where b: "c d1 d2 = Some b" by (auto split: option.splits)
  show ?case
  proof (cases b)
    case True
    with 3(3) b obtain m where m: "merge_shape c r2 (Present a1 d1 n1 l1 r1) = Some m"
      and t: "t = join a2 d2 l2 m" by auto
    from 3(1)[OF b True m] 3(4,5) have "leftist_property m" by simp
    with t 3(5) show ?thesis by (simp add: leftist_join)
  next
    case False
    with 3(3) b obtain m where m: "merge_shape c r1 (Present a2 d2 n2 l2 r2) = Some m"
      and t: "t = join a1 d1 l1 m" by auto
    from 3(2)[OF b False m] 3(4,5) have "leftist_property m" by simp
    with t 3(4) show ?thesis by (simp add: leftist_join)
  qed
qed simp_all


lemma merge_shape_total: "\<exists>t. merge_shape (total_cmp lt) t1 t2 = Some t"
proof (induction "total_cmp lt" t1 t2 rule: merge_shape.induct)
  case (3 a1 d1 n1 l1 r1 a2 d2 n2 l2 r2)
  then show ?case by (cases "lt d1 d2") (auto simp: total_cmp_def)
qed simp_all

lemma merge_shape_root:
  assumes "merge_shape c t1 t2 = Some t" and "root_not_less lt d t1" and "root_not_less lt d t2"
  shows "root_not_less lt d t"
proof (cases "(c, t1, t2)" rule: merge_shape.cases)
  case (3 c' a1 d1 n1 l1 r1 a2 d2 n2 l2 r2)
  with assms(1) obtain b where b: "c d1 d2 = Some b" by (auto split: option.splits)
  with 3 assms show ?thesis by (cases b) (auto simp: join_def)
qed (use assms in auto)

lemma merge_shape_heap:
  assumes asym: "\<And>a b. lt a b \<Longrightarrow> \<not> lt b a"
  shows "merge_shape (total_cmp lt) t1 t2 = Some t \<Longrightarrow> heap_property lt t1 \<Longrightarrow> heap_property lt t2
    \<Longrightarrow> heap_property lt t"
proof (induction "total_cmp lt" t1 t2 arbitrary: t rule: merge_shape.induct)
  case (3 a1 d1 n1 l1 r1 a2 d2 n2 l2 r2)
  let ?t1 = "Present a1 d1 n1 l1 r1" and ?t2 = "Present a2 d2 n2 l2 r2"
  have c: "total_cmp lt d1 d2 = Some (lt d1 d2)" by (simp add: total_cmp_def)
  show ?case
  proof (cases "lt d1 d2")
    case True
    with 3(3) c obtain m where m: "merge_shape (total_cmp lt) r2 ?t1 = Some m" and t: "t = join a2 d2 l2 m"
      by auto
    have "heap_property lt m" using 3(1)[OF c True m] 3(4,5) by simp
    moreover have "root_not_less lt d2 m"
      using merge_shape_root[OF m, of lt d2] 3(5) True asym by simp
    ultimately show ?thesis using t 3(5) by (simp add: heap_join)
  next
    case False
    with 3(3) c obtain m where m: "merge_shape (total_cmp lt) r1 ?t2 = Some m" and t: "t = join a1 d1 l1 m"
      by auto
    have "heap_property lt m" using 3(2)[OF c False m] 3(4,5) by simp
    moreover have "root_not_less lt d1 m"
      using merge_shape_root[OF m, of lt d1] 3(4) False by simp
    ultimately show ?thesis using t 3(4) by (simp add: heap_join)
  qed
qed simp_all

section \<open>The public operations keep the structural invariant\<close>

lemma holds_live: "holds s t \<Longrightarrow> a \<in> set (addrs t) \<Longrightarrow> s a \<noteq> None"
  by (induction t) auto

lemma struct_owns: "struct_inv T w \<Longrightarrow> owns w q (T q)"
  and struct_leftist: "struct_inv T w \<Longrightarrow> leftist_property (T q)"
  and struct_disjoint: "struct_inv T w \<Longrightarrow> q \<noteq> q' \<Longrightarrow> set (addrs (T q)) \<inter> set (addrs (T q')) = {}"
  and struct_fresh: "struct_inv T w \<Longrightarrow> next_addr w \<le> a \<Longrightarrow> nodes w a = None"
  by (simp_all add: struct_inv_def)

lemma struct_below:
  assumes "struct_inv T w" and "a \<in> set (addrs (T q))"
  shows "a < next_addr w"
proof (rule ccontr)
  assume "\<not> a < next_addr w"
  then have "nodes w a = None" using struct_fresh[OF assms(1), of a] by simp
  moreover have "holds (nodes w) (T q)" using struct_owns[OF assms(1), of q] by (simp add: owns_def)
  ultimately show False using holds_live assms(2) by blast
qed

lemma struct_inv_update:
  assumes inv: "struct_inv T w"
    and others: "\<And>q'. q' \<notin> Q \<Longrightarrow> queues w' q' = queues w q' \<and> T' q' = T q'"
    and frame: "\<And>a q'. q' \<notin> Q \<Longrightarrow> a \<in> set (addrs (T q')) \<Longrightarrow> nodes w' a = nodes w a"
    and changed: "\<And>q. q \<in> Q \<Longrightarrow> owns w' q (T' q) \<and> leftist_property (T' q)"
    and disj: "\<And>q q'. q \<in> Q \<Longrightarrow> q' \<noteq> q \<Longrightarrow> set (addrs (T' q)) \<inter> set (addrs (T' q')) = {}"
    and fresh: "\<And>a. next_addr w' \<le> a \<Longrightarrow> nodes w' a = None"
  shows "struct_inv T' w'"
  unfolding struct_inv_def
proof (intro conjI allI impI)
  fix q
  show "owns w' q (T' q)"
  proof (cases "q \<in> Q")
    case True then show ?thesis using changed by blast
  next
    case False
    have "holds (nodes w') (T q)"
      using struct_owns[OF inv, of q] frame[OF False]
      by (intro holds_frame[of "nodes w" "T q" "nodes w'"]) (auto simp: owns_def)
    then show ?thesis using others[OF False] struct_owns[OF inv, of q] by (simp add: owns_def)
  qed
  show "leftist_property (T' q)"
    using changed[of q] others[of q] struct_leftist[OF inv, of q] by (cases "q \<in> Q") auto
next
  fix q q' :: qid
  assume ne: "q \<noteq> q'"
  show "set (addrs (T' q)) \<inter> set (addrs (T' q')) = {}"
  proof (cases "q \<in> Q")
    case True then show ?thesis using disj[of q q'] ne by auto
  next
    case False
    show ?thesis
    proof (cases "q' \<in> Q")
      case True then show ?thesis using disj[of q' q] ne by auto
    next
      case q': False
      show ?thesis using others[OF False] others[OF q'] struct_disjoint[OF inv ne] by simp
    qed
  qed
next
  fix a assume "next_addr w' \<le> a"
  then show "nodes w' a = None" by (rule fresh)
qed

text \<open>The invariant does not depend on the allocator beyond its next address growing.\<close>

lemma struct_inv_same_nodes:
  assumes inv: "struct_inv T w" and "nodes w' = nodes w" and "queues w' = queues w"
    and "next_addr w \<le> next_addr w'"
  shows "struct_inv T w'"
proof (rule struct_inv_update[OF inv, where Q = "{}"])
  fix a assume "next_addr w' \<le> a"
  then show "nodes w' a = None" using assms(2,4) struct_fresh[OF inv, of a] by simp
qed (simp_all add: assms)

lemma new_node_result:
  "new_node w e =
     (if alloc_plan w \<noteq> [] \<and> \<not> hd (alloc_plan w)
      then (Throw bad_alloc, w\<lparr>alloc_plan := tl (alloc_plan w)\<rparr>)
      else (Ok (next_addr w),
            w\<lparr>nodes := (nodes w)(next_addr w \<mapsto> \<lparr>data = e, left = None, right = None, npl = 0\<rparr>),
              next_addr := Suc (next_addr w), alloc_plan := tl (alloc_plan w)\<rparr>))"
  by (simp add: new_node_def split: list.splits bool.splits)

lemma distinct_mset_eq: "mset xs = mset ys \<Longrightarrow> distinct ys \<Longrightarrow> distinct xs"
  by (metis mset_eq_imp_distinct_iff)

lemma push_struct:
  assumes inv: "struct_inv T w"
  shows "\<exists>r w'. push w q e = Some (r, w') \<and> (\<forall>q'. cmp (queues w' q') = cmp (queues w q')) \<and>
     ((r = Throw bad_alloc \<and> struct_inv T w') \<or>
      (r = Throw runtime_error \<and> struct_inv T w' \<and>
         merge_shape (cmp (queues w q)) (T q) (Present (next_addr w) e 0 Absent Absent) = None) \<or>
      (r = Ok () \<and> (\<exists>t. merge_shape (cmp (queues w q)) (T q) (Present (next_addr w) e 0 Absent Absent) = Some t
          \<and> struct_inv (T(q := t)) w')))"
proof (cases "alloc_plan w \<noteq> [] \<and> \<not> hd (alloc_plan w)")
  case True
  then have "new_node w e = (Throw bad_alloc, w\<lparr>alloc_plan := tl (alloc_plan w)\<rparr>)"
    by (simp add: new_node_result)
  moreover have "struct_inv T (w\<lparr>alloc_plan := tl (alloc_plan w)\<rparr>)"
    by (rule struct_inv_same_nodes[OF inv]) simp_all
  ultimately show ?thesis by (simp add: push_def)
next
  case False
  define a where "a = next_addr w"
  define c where "c = cmp (queues w q)"
  define s1 where "s1 = (nodes w)(a \<mapsto> \<lparr>data = e, left = None, right = None, npl = 0\<rparr>)"
  define w1 where "w1 = w\<lparr>nodes := s1, next_addr := Suc a, alloc_plan := tl (alloc_plan w)\<rparr>"
  let ?N = "Present a e 0 Absent Absent"
  have nn: "new_node w e = (Ok a, w1)"
    using False by (simp add: new_node_result w1_def s1_def a_def)
  have own: "owns w q (T q)" by (rule struct_owns[OF inv])
  have a_notin: "a \<notin> set (addrs (T q'))" for q'
    using struct_below[OF inv, of a q'] by (auto simp: a_def)
  have a_dead: "nodes w a = None" using struct_fresh[OF inv, of a] by (simp add: a_def)
  have h1: "holds s1 (T q)"
    unfolding s1_def using own a_notin by (simp add: holds_upd owns_def)
  have hN: "holds s1 ?N" by (simp add: s1_def)
  have d: "distinct (addrs (T q) @ addrs ?N)" using own a_notin by (simp add: owns_def)
  have rq: "root (queues w q) = ptr (T q)" using own by (simp add: owns_def)
  note R = mergeNodes_refines[OF h1 hN d, of c]
  show ?thesis
  proof (cases "merge_shape c (T q) ?N")
    case None
    with R have m: "mergeNodes c s1 (ptr (T q)) (Some a) = Some (Throw predicate_failure, s1)"
      by (simp add: merge_result_def)
    define w' where "w' = w1\<lparr>nodes := s1(a := None), released := a # released w1\<rparr>"
    have m': "mergeNodes c s1 (root (queues w q)) (Some a) = Some (Throw predicate_failure, s1)"
      using m rq by simp
    have p: "push w q e = Some (Throw runtime_error, w')"
      using nn m'
      by (simp add: push_def w'_def w1_def Let_def c_def delete_node_def s1_def)
    have "s1(a := None) = nodes w" using a_dead by (auto simp: s1_def fun_eq_iff)
    then have "struct_inv T w'"
      by (intro struct_inv_same_nodes[OF inv]) (simp_all add: w'_def w1_def a_def)
    moreover have "queues w' = queues w" by (simp add: w'_def w1_def)
    ultimately show ?thesis using p None by (simp add: c_def a_def)
  next
    case (Some t)
    with R obtain s' where
      m: "mergeNodes c s1 (ptr (T q)) (Some a) = Some (Ok (ptr t), s')"
      and ht: "holds s' t"
      and fr: "\<And>b. b \<notin> set (addrs (T q)) \<Longrightarrow> b \<noteq> a \<Longrightarrow> s' b = s1 b"
      by (auto simp: merge_result_def)
    define w' where "w' = set_queue (set_queue (w1\<lparr>nodes := s'\<rparr>) q (\<lambda>p. p\<lparr>root := ptr t\<rparr>)) q
                           (\<lambda>p. p\<lparr>count_pq := Suc (count_pq p)\<rparr>)"
    have p: "push w q e = Some (Ok (), w')"
      using nn m rq by (simp add: push_def w'_def w1_def Let_def c_def)
    have at: "mset (addrs t) = mset (addrs (T q) @ addrs ?N)"
      using merge_shape_addrs[OF Some] by simp
    have st: "set (addrs t) = insert a (set (addrs (T q)))"
      using merge_shape_set[OF Some] by simp
    have nw': "nodes w' = s'" "next_addr w' = Suc a"
      and qw': "queues w' = (queues w)(q := (queues w q)\<lparr>root := ptr t, count_pq := Suc (count_pq (queues w q))\<rparr>)"
      by (simp_all add: w'_def w1_def set_queue_def)
    have "struct_inv (T(q := t)) w'"
    proof (rule struct_inv_update[OF inv, where Q = "{q}"])
      fix q' assume "q' \<notin> {q}"
      then show "queues w' q' = queues w q' \<and> (T(q := t)) q' = T q'" by (simp add: qw')
    next
      fix b q' assume q': "q' \<notin> {q}" and b: "b \<in> set (addrs (T q'))"
      have "b \<notin> set (addrs (T q))" using struct_disjoint[OF inv, of q' q] q' b by auto
      moreover have "b \<noteq> a" using a_notin b by auto
      ultimately show "nodes w' b = nodes w b" using fr[of b] by (simp add: nw' s1_def)
    next
      fix q' assume "q' \<in> {q}"
      then have q': "q' = q" by simp
      have "distinct (addrs t)" by (rule distinct_mset_eq[OF at d])
      moreover have "length (addrs t) = Suc (length (addrs (T q)))"
        using mset_eq_length[OF at] by simp
      ultimately have "owns w' q t" using ht own by (simp add: owns_def nw' qw')
      moreover have "leftist_property t"
        using merge_shape_leftist[OF Some] struct_leftist[OF inv, of q] by simp
      ultimately show "owns w' q' ((T(q := t)) q') \<and> leftist_property ((T(q := t)) q')"
        by (simp add: q')
    next
      fix q1 q2 assume "q1 \<in> {q}" and ne: "q2 \<noteq> q1"
      then have "set (addrs (T q2)) \<inter> set (addrs (T q)) = {}" using struct_disjoint[OF inv, of q2 q] by simp
      then show "set (addrs ((T(q := t)) q1)) \<inter> set (addrs ((T(q := t)) q2)) = {}"
        using \<open>q1 \<in> {q}\<close> ne a_notin[of q2] by (auto simp: st)
    next
      fix b assume "next_addr w' \<le> b"
      then have b: "Suc a \<le> b" by (simp add: nw')
      then have "b \<notin> set (addrs (T q))" using struct_below[OF inv, of b q] by (auto simp: a_def)
      with b have "s' b = s1 b" by (intro fr) auto
      also have "\<dots> = None" using b struct_fresh[OF inv, of b] by (simp add: s1_def a_def)
      finally show "nodes w' b = None" by (simp add: nw')
    qed
    moreover have "cmp (queues w' q') = cmp (queues w q')" for q' by (simp add: qw')
    ultimately show ?thesis using p Some by (auto simp: a_def c_def)
  qed
qed

lemma pop_struct_empty:
  assumes inv: "struct_inv T w" and e: "T q = Absent"
  shows "pop w q = Some (Throw container_is_empty, w)"
  using struct_owns[OF inv, of q] e by (simp add: pop_def owns_def)

lemma pop_struct:
  assumes inv: "struct_inv T w" and T: "T q = Present a d n l r"
  shows "\<exists>res w'. pop w q = Some (res, w') \<and> (\<forall>q'. cmp (queues w' q') = cmp (queues w q')) \<and>
     ((res = Throw runtime_error \<and> w' = w \<and> merge_shape (cmp (queues w q)) l r = None) \<or>
      (res = Ok () \<and> (\<exists>t. merge_shape (cmp (queues w q)) l r = Some t \<and> struct_inv (T(q := t)) w')))"
proof -
  define c where "c = cmp (queues w q)"
  have own: "owns w q (T q)" by (rule struct_owns[OF inv])
  have rt: "root (queues w q) = Some a"
    and na: "nodes w a = Some \<lparr>data = d, left = ptr l, right = ptr r, npl = n\<rparr>"
    and hl: "holds (nodes w) l" and hr: "holds (nodes w) r"
    and dd: "distinct (addrs l @ addrs r)" and a_notin: "a \<notin> set (addrs l)" "a \<notin> set (addrs r)"
    and cnt: "count_pq (queues w q) = Suc (length (addrs l @ addrs r))"
    using own T by (auto simp: owns_def)
  note R = mergeNodes_refines[OF hl hr dd, of c]
  show ?thesis
  proof (cases "merge_shape c l r")
    case None
    with R have "mergeNodes c (nodes w) (ptr l) (ptr r) = Some (Throw predicate_failure, nodes w)"
      by (simp add: merge_result_def)
    then have "pop w q = Some (Throw runtime_error, w)"
      using pop_predicate_throws[OF rt na, of predicate_failure "nodes w"] by (simp add: c_def)
    then show ?thesis using None by (simp add: c_def)
  next
    case (Some t)
    with R obtain s' where
      m: "mergeNodes c (nodes w) (ptr l) (ptr r) = Some (Ok (ptr t), s')"
      and ht: "holds s' t"
      and fr: "\<And>b. b \<notin> set (addrs l) \<Longrightarrow> b \<notin> set (addrs r) \<Longrightarrow> s' b = nodes w b"
      by (auto simp: merge_result_def)
    have s'a: "s' a = nodes w a" using a_notin by (intro fr)
    define w' where "w' = w\<lparr>nodes := s'(a := None), released := a # released w,
        queues := (queues w)(q := (queues w q)\<lparr>root := ptr t, count_pq := count_pq (queues w q) - 1\<rparr>)\<rparr>"
    have p: "pop w q = Some (Ok (), w')"
      using rt na m s'a
      by (simp add: pop_def Let_def delete_node_def set_queue_def w'_def c_def)
    have at: "mset (addrs t) = mset (addrs l @ addrs r)"
      using merge_shape_addrs[OF Some] by simp
    have st: "set (addrs t) = set (addrs l) \<union> set (addrs r)"
      using merge_shape_set[OF Some] .
    have sub: "set (addrs t) \<subseteq> set (addrs (T q))" using st T by auto
    have "struct_inv (T(q := t)) w'"
    proof (rule struct_inv_update[OF inv, where Q = "{q}"])
      fix q' assume "q' \<notin> {q}"
      then show "queues w' q' = queues w q' \<and> (T(q := t)) q' = T q'" by (simp add: w'_def)
    next
      fix b q' assume q': "q' \<notin> {q}" and b: "b \<in> set (addrs (T q'))"
      have "b \<notin> set (addrs (T q))" using struct_disjoint[OF inv, of q' q] q' b by auto
      then have "b \<notin> set (addrs l)" "b \<notin> set (addrs r)" "b \<noteq> a" using T by auto
      then show "nodes w' b = nodes w b" using fr[of b] by (simp add: w'_def)
    next
      fix q' assume "q' \<in> {q}"
      then have q': "q' = q" by simp
      have "distinct (addrs t)" by (rule distinct_mset_eq[OF at dd])
      moreover have "length (addrs t) = length (addrs l @ addrs r)"
        using mset_eq_length[OF at] .
      moreover have "holds (s'(a := None)) t" using ht a_notin st by (intro holds_upd) auto
      ultimately have "owns w' q t" using cnt by (simp add: owns_def w'_def)
      moreover have "leftist_property t"
        using merge_shape_leftist[OF Some] struct_leftist[OF inv, of q] T by simp
      ultimately show "owns w' q' ((T(q := t)) q') \<and> leftist_property ((T(q := t)) q')"
        by (simp add: q')
    next
      fix q1 q2 assume q1: "q1 \<in> {q}" and ne: "q2 \<noteq> q1"
      then have "set (addrs (T q2)) \<inter> set (addrs (T q)) = {}"
        using struct_disjoint[OF inv, of q2 q] by simp
      then show "set (addrs ((T(q := t)) q1)) \<inter> set (addrs ((T(q := t)) q2)) = {}"
        using q1 ne sub by auto
    next
      fix b assume b: "next_addr w' \<le> b"
      then have "b \<notin> set (addrs (T q))" using struct_below[OF inv, of b q] by (auto simp: w'_def)
      then have "s' b = nodes w b" using T by (intro fr) auto
      then show "nodes w' b = None" using b struct_fresh[OF inv, of b] by (simp add: w'_def)
    qed
    moreover have "cmp (queues w' q') = cmp (queues w q')" for q' by (simp add: w'_def)
    ultimately show ?thesis using p Some by (auto simp: c_def)
  qed
qed

lemma merge_struct:
  assumes inv: "struct_inv T w" and ne: "this \<noteq> other"
  shows "\<exists>res w'. merge w this other = Some (res, w') \<and> (\<forall>q'. cmp (queues w' q') = cmp (queues w q')) \<and>
     ((res = Throw runtime_error \<and> w' = w
         \<and> merge_shape (cmp (queues w this)) (T this) (T other) = None) \<or>
      (res = Ok () \<and> (\<exists>t. merge_shape (cmp (queues w this)) (T this) (T other) = Some t
           \<and> struct_inv (T(this := t, other := Absent)) w'
           \<and> count_pq (queues w' this) = count_pq (queues w this) + count_pq (queues w other)
           \<and> root (queues w' other) = None \<and> count_pq (queues w' other) = 0)))"
proof -
  define c where "c = cmp (queues w this)"
  have o1: "owns w this (T this)" and o2: "owns w other (T other)"
    by (rule struct_owns[OF inv])+
  have dj: "set (addrs (T this)) \<inter> set (addrs (T other)) = {}"
    by (rule struct_disjoint[OF inv ne])
  have h1: "holds (nodes w) (T this)" and h2: "holds (nodes w) (T other)"
    and dd: "distinct (addrs (T this) @ addrs (T other))"
    and r1: "root (queues w this) = ptr (T this)" and r2: "root (queues w other) = ptr (T other)"
    using o1 o2 dj by (auto simp: owns_def)
  note R = mergeNodes_refines[OF h1 h2 dd, of c]
  show ?thesis
  proof (cases "merge_shape c (T this) (T other)")
    case None
    with R have "mergeNodes c (nodes w) (ptr (T this)) (ptr (T other))
        = Some (Throw predicate_failure, nodes w)"
      by (simp add: merge_result_def)
    then have "merge w this other = Some (Throw runtime_error, w)"
      using merge_predicate_throws[OF ne, of w predicate_failure "nodes w"] by (simp add: c_def r1 r2)
    then show ?thesis using None by (simp add: c_def)
  next
    case (Some t)
    with R obtain s' where
      m: "mergeNodes c (nodes w) (ptr (T this)) (ptr (T other)) = Some (Ok (ptr t), s')"
      and ht: "holds s' t"
      and fr: "\<And>b. b \<notin> set (addrs (T this)) \<Longrightarrow> b \<notin> set (addrs (T other)) \<Longrightarrow> s' b = nodes w b"
      by (auto simp: merge_result_def)
    define w' where "w' = w\<lparr>nodes := s',
        queues := (queues w)
          (this := (queues w this)\<lparr>root := ptr t,
                     count_pq := count_pq (queues w this) + count_pq (queues w other)\<rparr>,
           other := (queues w other)\<lparr>root := None, count_pq := 0\<rparr>)\<rparr>"
    have p: "merge w this other = Some (Ok (), w')"
      using ne m r1 r2
      by (simp add: merge_def Let_def set_queue_def w'_def c_def fun_upd_twist)
    have at: "mset (addrs t) = mset (addrs (T this) @ addrs (T other))"
      using merge_shape_addrs[OF Some] by simp
    have st: "set (addrs t) = set (addrs (T this)) \<union> set (addrs (T other))"
      using merge_shape_set[OF Some] .
    have "struct_inv (T(this := t, other := Absent)) w'"
    proof (rule struct_inv_update[OF inv, where Q = "{this, other}"])
      fix q' assume "q' \<notin> {this, other}"
      then show "queues w' q' = queues w q' \<and> (T(this := t, other := Absent)) q' = T q'"
        by (simp add: w'_def)
    next
      fix b q' assume q': "q' \<notin> {this, other}" and b: "b \<in> set (addrs (T q'))"
      have "b \<notin> set (addrs (T this))" using struct_disjoint[OF inv, of q' this] q' b by auto
      moreover have "b \<notin> set (addrs (T other))" using struct_disjoint[OF inv, of q' other] q' b by auto
      ultimately show "nodes w' b = nodes w b" using fr[of b] by (simp add: w'_def)
    next
      fix q' assume q': "q' \<in> {this, other}"
      have "distinct (addrs t)" by (rule distinct_mset_eq[OF at dd])
      moreover have "length (addrs t) = length (addrs (T this)) + length (addrs (T other))"
        using mset_eq_length[OF at] by simp
      ultimately have "owns w' this t" using ht o1 o2 ne by (simp add: owns_def w'_def)
      moreover have "owns w' other Absent" using ne by (simp add: owns_def w'_def)
      moreover have "leftist_property t"
        using merge_shape_leftist[OF Some] struct_leftist[OF inv] by simp
      ultimately show "owns w' q' ((T(this := t, other := Absent)) q')
          \<and> leftist_property ((T(this := t, other := Absent)) q')"
        using q' ne by auto
    next
      fix q1 q2 assume q1: "q1 \<in> {this, other}" and n2: "q2 \<noteq> q1"
      have "set (addrs (T q2)) \<inter> set (addrs (T this)) = {}" if "q2 \<noteq> this"
        using struct_disjoint[OF inv, of q2 this] that by simp
      moreover have "set (addrs (T q2)) \<inter> set (addrs (T other)) = {}" if "q2 \<noteq> other"
        using struct_disjoint[OF inv, of q2 other] that by simp
      ultimately show "set (addrs ((T(this := t, other := Absent)) q1))
          \<inter> set (addrs ((T(this := t, other := Absent)) q2)) = {}"
        using q1 n2 ne by (auto simp: st)
    next
      fix b assume b: "next_addr w' \<le> b"
      then have "b \<notin> set (addrs (T this))" "b \<notin> set (addrs (T other))"
        using struct_below[OF inv, of b this] struct_below[OF inv, of b other] by (auto simp: w'_def)
      then have "s' b = nodes w b" by (intro fr)
      then show "nodes w' b = None" using b struct_fresh[OF inv, of b] by (simp add: w'_def)
    qed
    moreover have "cmp (queues w' q') = cmp (queues w q')" for q' by (simp add: w'_def)
    moreover have "count_pq (queues w' this) = count_pq (queues w this) + count_pq (queues w other)"
      "root (queues w' other) = None" "count_pq (queues w' other) = 0"
      using ne by (simp_all add: w'_def)
    ultimately show ?thesis using p Some by (auto simp: c_def)
  qed
qed

section \<open>Teardown and deep copy\<close>

text \<open>On a tree held by the store, \<open>deleteTree\<close> releases every node once, children first.\<close>

lemma deleteTree_owned:
  assumes "holds (nodes w) t" and "distinct (addrs t)"
  shows "deleteTree w (ptr t) =
           Some (Ok (), w\<lparr>nodes := nodes w |` (- set (addrs t)),
                          released := rev (addrs t) @ released w\<rparr>)"
  using assms
proof (induction t arbitrary: w)
  case Absent
  then show ?case by (simp add: deleteTree.simps)
next
  case (Present a d n l r)
  let ?wl = "w\<lparr>nodes := nodes w |` (- set (addrs l)), released := rev (addrs l) @ released w\<rparr>"
  let ?wr = "?wl\<lparr>nodes := nodes ?wl |` (- set (addrs r)), released := rev (addrs r) @ released ?wl\<rparr>"
  have na: "nodes w a = Some \<lparr>data = d, left = ptr l, right = ptr r, npl = n\<rparr>"
    and hl: "holds (nodes w) l" and hr: "holds (nodes w) r"
    and dl: "distinct (addrs l)" and dr: "distinct (addrs r)"
    and al: "a \<notin> set (addrs l)" and ar: "a \<notin> set (addrs r)"
    and lr: "set (addrs l) \<inter> set (addrs r) = {}"
    using Present.prems by auto
  have L: "deleteTree w (ptr l) = Some (Ok (), ?wl)" by (rule Present.IH(1)[OF hl dl])
  have hr': "holds (nodes ?wl) r"
    using hr lr by (elim holds_frame) (auto simp: restrict_map_def)
  have R: "deleteTree ?wl (ptr r) = Some (Ok (), ?wr)" by (rule Present.IH(2)[OF hr' dr])
  have nl: "nodes ?wl a = Some \<lparr>data = d, left = ptr l, right = ptr r, npl = n\<rparr>"
    using na al by (simp add: restrict_map_def)
  have nr: "nodes ?wr a = Some \<lparr>data = d, left = ptr l, right = ptr r, npl = n\<rparr>"
    using na al ar by (simp add: restrict_map_def)
  have D: "delete_node ?wr a = (Ok (), w\<lparr>nodes := nodes w |` (- set (addrs (Present a d n l r))),
                          released := rev (addrs (Present a d n l r)) @ released w\<rparr>)"
    using nr by (auto simp: delete_node_def restrict_map_def fun_eq_iff)
  show ?case
    apply (subst deleteTree.simps)
    apply (simp only: ptr.simps option.case na L nl R D Option.bind.simps prod.case outcome.case node.simps)
    done
qed

text \<open>The copy has fresh, pairwise different addresses and the elements and \<open>npl\<close> values of the original.\<close>

lemma length_addrs_clone [simp]: "length (addrs (clone a0 t)) = length (addrs t)"
  by (induction t arbitrary: a0) auto

lemma set_addrs_clone: "set (addrs (clone a0 t)) = {a0 ..< a0 + length (addrs t)}"
proof (induction t arbitrary: a0)
  case Absent
  then show ?case by simp
next
  case (Present a d n l r)
  show ?case
    unfolding clone.simps addrs.simps set_append Present.IH
    by (auto simp: length_append)
qed

lemma distinct_addrs_clone: "distinct (addrs (clone a0 t))"
proof (induction t arbitrary: a0)
  case Absent
  then show ?case by simp
next
  case (Present a d n l r)
  then show ?case by (auto simp: set_addrs_clone)
qed

lemma ptr_clone: "ptr (clone a0 t) = (case t of Absent \<Rightarrow> None | Present a d n l r \<Rightarrow> Some a0)"
  by (cases t) auto

lemma elems_clone [simp]: "elems (clone a0 t) = elems t"
  by (induction t arbitrary: a0) auto

lemma npl_of_clone [simp]: "npl_of (clone a0 t) = npl_of t"
  by (cases t) auto

lemma leftist_clone [simp]: "leftist_property (clone a0 t) = leftist_property t"
  by (induction t arbitrary: a0) auto

lemma root_not_less_clone [simp]: "root_not_less lt d (clone a0 t) = root_not_less lt d t"
  by (cases t) auto

lemma heap_clone [simp]: "heap_property lt (clone a0 t) = heap_property lt t"
  by (induction t arbitrary: a0) auto

text \<open>
  \<open>copyTree\<close> on a tree held by the store, with the allocator's next addresses not live:
  it returns, and what it returns is described by \<open>copy_post\<close>.
\<close>

lemma list_all_tl: "list_all P xs \<Longrightarrow> list_all P (tl xs)"
  by (cases xs) auto

lemma list_all_drop: "list_all P xs \<Longrightarrow> list_all P (drop k xs)"
  by (metis append_take_drop_id list_all_append)

lemma copyTree_spec:
  fixes w :: "'a world"
  assumes "holds (nodes w) t" and "\<forall>b. next_addr w \<le> b \<longrightarrow> nodes w b = None"
  shows "\<exists>r w'. copyTree w (ptr t) = Some (r, w') \<and> copy_post t w r w'"
  using assms
proof (induction t arbitrary: w)
  case Absent
  then show ?case by (simp add: copyTree.simps copy_post_def)
next
  case (Present a d n l r)
  define a0 where "a0 = next_addr w"
  have na: "nodes w a = Some \<lparr>data = d, left = ptr l, right = ptr r, npl = n\<rparr>"
    and hl: "holds (nodes w) l" and hr: "holds (nodes w) r"
    using Present.prems(1) by auto
  have fresh: "nodes w b = None" if "a0 \<le> b" for b
    using Present.prems(2) that by (simp add: a0_def)
  have live_lt: "b < a0" if "nodes w b \<noteq> None" for b
    using fresh[of b] that by (cases "b < a0") auto
  have a_lt: "a < a0" using live_lt[of a] na by simp
  have l_lt: "b < a0" if "b \<in> set (addrs l)" for b
    using live_lt[of b] holds_live[OF hl that] by simp
  have r_lt: "b < a0" if "b \<in> set (addrs r)" for b
    using live_lt[of b] holds_live[OF hr that] by simp
  show ?case
  proof (cases "alloc_plan w \<noteq> [] \<and> \<not> hd (alloc_plan w)")
    case True
    then have "\<not> list_all id (alloc_plan w)" by (cases "alloc_plan w") auto
    then show ?thesis using True
      by (subst copyTree.simps) (simp add: na new_node_result copy_post_def)
  next
    case False
    define w2 where "w2 = w\<lparr>next_addr := Suc a0, alloc_plan := tl (alloc_plan w),
        nodes := (nodes w)(a0 \<mapsto> \<lparr>data = d, left = None, right = None, npl = n\<rparr>)\<rparr>"
    define K2 where "K2 = (\<lambda>(r2, w5 :: 'a world).
        (case r2 of
           Ok r \<Rightarrow> (case write_node w5 a0 (right_update (\<lambda>_. r)) of
                      None \<Rightarrow> Some (Fault, w5)
                    | Some w6 \<Rightarrow> Some (Ok (Some a0), w6))
         | Throw x \<Rightarrow> copyTree_inner_catch w5 a0 x
         | Fault \<Rightarrow> Some (Fault, w5)))"
    define K1 where "K1 = (\<lambda>(r1, w3 :: 'a world).
        (case r1 of
           Ok lp \<Rightarrow> (case write_node w3 a0 (left_update (\<lambda>_. lp)) of
                       None \<Rightarrow> Some (Fault, w3)
                     | Some w4 \<Rightarrow> (case nodes w4 a of
                                    None \<Rightarrow> Some (Fault, w4)
                                  | Some n4 \<Rightarrow> Option.bind (copyTree w4 (right n4)) K2))
         | Throw e \<Rightarrow> Some (copyTree_outer_catch w3 a0 e)
         | Fault \<Rightarrow> Some (Fault, w3)))"
    have step: "copyTree w (Some a) = Option.bind (copyTree w2 (ptr l)) K1"
      unfolding K1_def K2_def w2_def a0_def using a_lt[unfolded a0_def]
      by (subst copyTree.simps) (simp add: na new_node_result False write_node_def)
    have w2: "nodes w2 = (nodes w)(a0 \<mapsto> \<lparr>data = d, left = None, right = None, npl = n\<rparr>)"
      "next_addr w2 = Suc a0" "alloc_plan w2 = tl (alloc_plan w)" "queues w2 = queues w"
      "released w2 = released w"
      by (simp_all add: w2_def)
    have hl2: "holds (nodes w2) l"
      unfolding w2 using hl l_lt by (intro holds_upd) auto
    have fresh2: "\<forall>b. next_addr w2 \<le> b \<longrightarrow> nodes w2 b = None"
      using fresh by (simp add: w2)
    from Present.IH(1)[OF hl2 fresh2] obtain r1 w3 where
      c1: "copyTree w2 (ptr l) = Some (r1, w3)" and p1: "copy_post l w2 r1 w3" by blast
    have q3: "queues w3 = queues w" using p1 by (simp add: copy_post_def w2)
    have res1: "copyTree w (Some a) = K1 (r1, w3)" by (simp add: step c1)
    show ?thesis
    proof (cases r1)
      case Fault
      with p1 have "\<not> list_all id (alloc_plan w)"
        using list_all_tl[of id "alloc_plan w"] by (auto simp: copy_post_def w2)
      then show ?thesis using Fault q3 by (simp add: res1 K1_def copy_post_def)
    next
      case (Throw e)
      with p1 have e: "e = bad_alloc" and n3: "nodes w3 = nodes w2" and x3: "Suc a0 \<le> next_addr w3"
        and pl: "\<not> list_all id (alloc_plan w)"
        using list_all_tl[of id "alloc_plan w"] by (auto simp: copy_post_def w2)
      have rest0: "(nodes w2)(a0 := None) = nodes w"
        using fresh[of a0] by (auto simp: w2 fun_eq_iff)
      show ?thesis using Throw e x3 pl q3 rest0
        by (simp add: res1 K1_def copyTree_outer_catch_def delete_node_def n3 w2(1) copy_post_def a0_def)
    next
      case (Ok lp)
      let ?cl = "clone (Suc a0) l"
      from Ok p1 have lp: "lp = ptr ?cl" and h3: "holds (nodes w3) ?cl"
        and f3: "\<And>b. b < Suc a0 \<Longrightarrow> nodes w3 b = nodes w2 b"
        and x3: "next_addr w3 = Suc a0 + length (addrs l)"
        and fr3: "\<And>b. next_addr w3 \<le> b \<Longrightarrow> nodes w3 b = None"
        and pl3: "alloc_plan w3 = drop (length (addrs l)) (tl (alloc_plan w))"
        and rl3: "released w3 = released w"
        by (auto simp: copy_post_def w2)
      define w4 where "w4 = w3\<lparr>nodes := (nodes w3)(a0 \<mapsto> \<lparr>data = d, left = lp, right = None, npl = n\<rparr>)\<rparr>"
      have n3a0: "nodes w3 a0 = Some \<lparr>data = d, left = None, right = None, npl = n\<rparr>"
        using f3[of a0] by (simp add: w2)
      have n3a: "nodes w3 a = Some \<lparr>data = d, left = ptr l, right = ptr r, npl = n\<rparr>"
        using f3[of a] a_lt na by (simp add: w2)
      have res2: "copyTree w (Some a) = Option.bind (copyTree w4 (ptr r)) K2"
        using a_lt by (simp add: res1 K1_def Ok write_node_def n3a0 n3a w4_def)
      have w4: "nodes w4 = (nodes w3)(a0 \<mapsto> \<lparr>data = d, left = lp, right = None, npl = n\<rparr>)"
        "next_addr w4 = next_addr w3" "alloc_plan w4 = alloc_plan w3" "queues w4 = queues w"
        "released w4 = released w"
        by (simp_all add: w4_def q3 rl3)
      have old4: "nodes w4 b = nodes w b" if "b < a0" for b
        using that f3[of b] by (simp add: w4 w2)
      have hr4: "holds (nodes w4) r"
        using hr r_lt old4 by (elim holds_frame) auto
      have fresh4: "\<forall>b. next_addr w4 \<le> b \<longrightarrow> nodes w4 b = None"
        using fr3 x3 by (auto simp: w4)
      have a0cl: "a0 \<notin> set (addrs ?cl)" by (simp add: set_addrs_clone)
      have hcl4: "holds (nodes w4) ?cl"
        unfolding w4 using h3 a0cl by (intro holds_upd)
      from Present.IH(2)[OF hr4 fresh4] obtain r2 w5 where
        c2: "copyTree w4 (ptr r) = Some (r2, w5)" and p2: "copy_post r w4 r2 w5" by blast
      have q5: "queues w5 = queues w" using p2 by (simp add: copy_post_def w4)
      have res3: "copyTree w (Some a) = K2 (r2, w5)" by (simp add: res2 c2)
      have plan_r: "\<not> list_all id (alloc_plan w4) \<Longrightarrow> \<not> list_all id (alloc_plan w)"
        using list_all_drop[of id "tl (alloc_plan w)" "length (addrs l)"] list_all_tl[of id "alloc_plan w"]
        by (auto simp: w4 pl3)
      show ?thesis
      proof (cases r2)
        case Fault
        with p2 plan_r have "\<not> list_all id (alloc_plan w)" by (auto simp: copy_post_def)
        then show ?thesis using Fault q5 by (simp add: res3 K2_def copy_post_def)
      next
        case (Throw e)
        with p2 plan_r have n5: "nodes w5 = nodes w4" and pl: "\<not> list_all id (alloc_plan w)"
          by (auto simp: copy_post_def)
        have hcl5: "holds (nodes w5) ?cl" using hcl4 by (simp add: n5)
        have n5a0: "nodes w5 a0 = Some \<lparr>data = d, left = ptr ?cl, right = None, npl = n\<rparr>"
          by (simp add: n5 w4 lp)
        let ?w6 = "w5\<lparr>nodes := nodes w5 |` (- set (addrs ?cl)), released := rev (addrs ?cl) @ released w5\<rparr>"
        have del: "deleteTree w5 (ptr ?cl) = Some (Ok (), ?w6)"
          by (rule deleteTree_owned[OF hcl5 distinct_addrs_clone])
        have "\<exists>w'. copyTree_inner_catch w5 a0 e = Some (Fault, w') \<and> queues w' = queues w5"
          using a0cl
          by (simp add: copyTree_inner_catch_def n5a0 del delete_node_def copyTree_outer_catch_def
              restrict_map_def)
        then show ?thesis using Throw pl q5
          by (auto simp: res3 K2_def copy_post_def)
      next
        case (Ok rp)
        let ?cr = "clone (Suc a0 + length (addrs l)) r"
        from Ok p2 have rp: "rp = ptr ?cr" and h5: "holds (nodes w5) ?cr"
          and f5: "\<And>b. b < Suc a0 + length (addrs l) \<Longrightarrow> nodes w5 b = nodes w4 b"
          and x5: "next_addr w5 = Suc a0 + length (addrs l) + length (addrs r)"
          and fr5: "\<And>b. next_addr w5 \<le> b \<Longrightarrow> nodes w5 b = None"
          and pl5: "alloc_plan w5 = drop (length (addrs r)) (alloc_plan w4)"
          and rl5: "released w5 = released w"
          by (auto simp: copy_post_def w4 x3)
        define w6 where "w6 = w5\<lparr>nodes := (nodes w5)(a0 \<mapsto> \<lparr>data = d, left = lp, right = rp, npl = n\<rparr>)\<rparr>"
        have n5a0: "nodes w5 a0 = Some \<lparr>data = d, left = lp, right = None, npl = n\<rparr>"
          using f5[of a0] by (simp add: w4)
        have res4: "copyTree w (Some a) = Some (Ok (Some a0), w6)"
          by (simp add: res3 K2_def Ok write_node_def n5a0 w6_def)
        have hcl5: "holds (nodes w5) ?cl"
          using hcl4 f5 by (elim holds_frame) (auto simp: set_addrs_clone)
        have a0cr: "a0 \<notin> set (addrs ?cr)" by (simp add: set_addrs_clone)
        have n6: "nodes w6 = (nodes w5)(a0 \<mapsto> \<lparr>data = d, left = ptr ?cl, right = ptr ?cr, npl = n\<rparr>)"
          by (simp add: w6_def lp rp)
        have "holds (nodes w6) ?cl" "holds (nodes w6) ?cr"
          unfolding n6 using hcl5 h5 a0cl a0cr by (simp_all add: holds_upd)
        then have "holds (nodes w6) (clone a0 (Present a d n l r))"
          by (simp add: n6)
        moreover have "nodes w6 b = nodes w b" if "b < a0" for b
          using that f5[of b] old4[of b] by (simp add: w6_def)
        moreover have "nodes w6 b = None" if "next_addr w6 \<le> b" for b
          using that fr5[of b] by (simp add: w6_def x5)
        moreover have "alloc_plan w6 = drop (length (addrs (Present a d n l r))) (alloc_plan w)"
          by (simp add: w6_def pl5 w4 pl3 drop_Suc add.commute)
        moreover have "queues w6 = queues w" "released w6 = released w"
          "next_addr w6 = next_addr w + length (addrs (Present a d n l r))"
          by (simp_all add: w6_def q5 rl5 x5 a0_def)
        ultimately show ?thesis
          by (simp add: res4 copy_post_def a0_def)
      qed
    qed
  qed
qed

text \<open>Copy construction and assignment keep the invariant, on success and on \<open>bad_alloc\<close>.\<close>

lemma copy_struct:
  fixes w :: "'a world"
  assumes inv: "struct_inv T w" and ne: "this \<noteq> other"
  shows "\<exists>r w'. priority_queue_copy w this other = Some (r, w') \<and>
     (r = Ok () \<longrightarrow> struct_inv (T(this := clone (next_addr w) (T other))) w'
        \<and> cmp (queues w' this) = cmp (queues w other)
        \<and> (\<forall>q. q \<noteq> this \<longrightarrow> queues w' q = queues w q)) \<and>
     (\<forall>x. r = Throw x \<longrightarrow> x = bad_alloc \<and> struct_inv T w' \<and> queues w' = queues w) \<and>
     (list_all id (alloc_plan w) \<longrightarrow> r = Ok ())"
proof -
  define w3 where "w3 = w\<lparr>queues := (queues w)(this := (queues w this)
      \<lparr>root := None, count_pq := count_pq (queues w other), cmp := cmp (queues w other)\<rparr>)\<rparr>"
  have oo: "owns w other (T other)" by (rule struct_owns[OF inv])
  have h3: "holds (nodes w3) (T other)" using oo by (simp add: owns_def w3_def)
  have f3: "\<forall>b. next_addr w3 \<le> b \<longrightarrow> nodes w3 b = None"
    using struct_fresh[OF inv] by (simp add: w3_def)
  from copyTree_spec[OF h3 f3] obtain r1 w4 where
    c: "copyTree w3 (ptr (T other)) = Some (r1, w4)" and p: "copy_post (T other) w3 r1 w4" by blast
  have ro: "root (queues w other) = ptr (T other)" using oo by (simp add: owns_def)
  have pre: "priority_queue_copy w this other =
      (case ptr (T other) of None \<Rightarrow> Some (Ok (), w3)
       | Some p \<Rightarrow> (case r1 of
            Ok c \<Rightarrow> Some (Ok (), set_queue w4 this (\<lambda>q. q\<lparr>root := c\<rparr>))
          | Throw x \<Rightarrow> Some (Throw x, w4\<lparr>queues := queues w\<rparr>)
          | Fault \<Rightarrow> Some (Fault, w4)))"
  proof (cases "ptr (T other)")
    case None
    then show ?thesis using ne ro
      by (simp add: priority_queue_copy_def set_queue_def Let_def w3_def)
  next
    case (Some p)
    then show ?thesis using c[unfolded Some w3_def] ne ro
      by (simp add: priority_queue_copy_def set_queue_def Let_def)
  qed
  have w3: "nodes w3 = nodes w" "next_addr w3 = next_addr w" "alloc_plan w3 = alloc_plan w"
    "queues w3 other = queues w other" "\<And>q. q \<noteq> this \<Longrightarrow> queues w3 q = queues w q"
    "root (queues w3 this) = None" "count_pq (queues w3 this) = count_pq (queues w other)"
    "cmp (queues w3 this) = cmp (queues w other)"
    using ne by (simp_all add: w3_def)
  show ?thesis
  proof (cases "T other")
    case Absent
    have "struct_inv (T(this := Absent)) w3"
    proof (rule struct_inv_update[OF inv, where Q = "{this}"])
      fix q assume "q \<in> {this}"
      then show "owns w3 q ((T(this := Absent)) q) \<and> leftist_property ((T(this := Absent)) q)"
        using oo Absent by (simp add: owns_def w3)
    qed (simp_all add: w3 struct_fresh[OF inv])
    then show ?thesis using Absent ne by (simp add: pre w3)
  next
    case (Present a d n l r)
    then have pt: "ptr (T other) = Some a" by simp
    let ?c = "clone (next_addr w) (T other)"
    show ?thesis
    proof (cases r1)
      case Fault
      with p show ?thesis by (simp add: pre pt copy_post_def w3)
    next
      case (Throw x)
      with p have x: "x = bad_alloc" and n4: "nodes w4 = nodes w" and a4: "next_addr w \<le> next_addr w4"
        and pl: "\<not> list_all id (alloc_plan w)"
        by (simp_all add: copy_post_def w3)
      have "struct_inv T (w4\<lparr>queues := queues w\<rparr>)"
      proof (rule struct_inv_update[OF inv, where Q = "{}"])
        fix b assume "next_addr (w4\<lparr>queues := queues w\<rparr>) \<le> b"
        then show "nodes (w4\<lparr>queues := queues w\<rparr>) b = None"
          using a4 struct_fresh[OF inv, of b] by (simp add: n4)
      qed (simp_all add: n4)
      then show ?thesis using Throw x pl by (simp add: pre pt)
    next
      case (Ok c)
      with p have c: "c = ptr ?c" and h4: "holds (nodes w4) ?c"
        and f4: "\<And>b. b < next_addr w \<Longrightarrow> nodes w4 b = nodes w b"
        and fr4: "\<And>b. next_addr w4 \<le> b \<Longrightarrow> nodes w4 b = None"
        and q4: "queues w4 = queues w3"
        by (simp_all add: copy_post_def w3)
      define w' where "w' = set_queue w4 this (\<lambda>q. q\<lparr>root := c\<rparr>)"
      have w': "nodes w' = nodes w4" "next_addr w' = next_addr w4"
        "\<And>q. q \<noteq> this \<Longrightarrow> queues w' q = queues w q"
        "root (queues w' this) = c" "count_pq (queues w' this) = count_pq (queues w other)"
        "cmp (queues w' this) = cmp (queues w other)"
        by (simp_all add: w'_def set_queue_def q4 w3)
      have "struct_inv (T(this := ?c)) w'"
      proof (rule struct_inv_update[OF inv, where Q = "{this}"])
        fix q assume "q \<notin> {this}"
        then show "queues w' q = queues w q \<and> (T(this := ?c)) q = T q" by (simp add: w')
      next
        fix b q assume "q \<notin> {this}" and "b \<in> set (addrs (T q))"
        then show "nodes w' b = nodes w b"
          using struct_below[OF inv, of b q] by (simp add: w' f4)
      next
        fix q assume "q \<in> {this}"
        then show "owns w' q ((T(this := ?c)) q) \<and> leftist_property ((T(this := ?c)) q)"
          using h4 oo c struct_leftist[OF inv, of other]
          by (simp add: owns_def w' distinct_addrs_clone)
      next
        fix q q' assume "q \<in> {this}" and "q' \<noteq> q"
        then show "set (addrs ((T(this := ?c)) q)) \<inter> set (addrs ((T(this := ?c)) q')) = {}"
          using struct_below[OF inv, of _ q'] by (fastforce simp: set_addrs_clone)
      next
        fix b assume "next_addr w' \<le> b"
        then show "nodes w' b = None" using fr4 by (simp add: w')
      qed
      moreover have "priority_queue_copy w this other = Some (Ok (), w')"
        by (simp add: pre pt Ok w'_def)
      ultimately show ?thesis using w'(3,6) by simp
    qed
  qed
qed

lemma assign_struct:
  fixes w :: "'a world"
  assumes inv: "struct_inv T w" and ne: "this \<noteq> other"
  shows "\<exists>r w'. assign w this other = Some (r, w') \<and>
     (r = Ok this \<longrightarrow> struct_inv (T(this := clone (next_addr w) (T other))) w'
        \<and> cmp (queues w' this) = cmp (queues w other)
        \<and> (\<forall>q. q \<noteq> this \<longrightarrow> queues w' q = queues w q)) \<and>
     (\<forall>x. r = Throw x \<longrightarrow> x = bad_alloc \<and> struct_inv T w' \<and> queues w' = queues w) \<and>
     (\<forall>q. r = Ok q \<longrightarrow> q = this) \<and>
     (list_all id (alloc_plan w) \<longrightarrow> r = Ok this)"
proof -
  have oo: "owns w other (T other)" and ot: "owns w this (T this)"
    by (rule struct_owns[OF inv])+
  have ro: "root (queues w other) = ptr (T other)" using oo by (simp add: owns_def)
  have h: "holds (nodes w) (T other)" using oo by (simp add: owns_def)
  have f: "\<forall>b. next_addr w \<le> b \<longrightarrow> nodes w b = None"
    using struct_fresh[OF inv] by simp
  from copyTree_spec[OF h f] obtain r1 w1 where
    c: "copyTree w (ptr (T other)) = Some (r1, w1)" and p: "copy_post (T other) w r1 w1" by blast
  have c': "(case root (queues w other) of None \<Rightarrow> Some (Ok None, w) | Some p \<Rightarrow> copyTree w (Some p))
      = Some (r1, w1)"
  proof (cases "T other")
    case Absent
    with c have "r1 = Ok None" "w1 = w" by (simp_all add: copyTree.simps)
    then show ?thesis using Absent by (simp add: ro)
  next
    case Present
    then show ?thesis using c by (simp add: ro)
  qed
  have q1: "queues w1 = queues w" using p by (simp add: copy_post_def)
  let ?c = "clone (next_addr w) (T other)"
  show ?thesis
  proof (cases r1)
    case Fault
    with p show ?thesis using ne by (simp add: assign_def c' copy_post_def)
  next
    case (Throw x)
    with p have x: "x = bad_alloc" and n1: "nodes w1 = nodes w" and a1: "next_addr w \<le> next_addr w1"
      and pl: "\<not> list_all id (alloc_plan w)"
      by (simp_all add: copy_post_def)
    have "struct_inv T w1"
    proof (rule struct_inv_update[OF inv, where Q = "{}"])
      fix b assume "next_addr w1 \<le> b"
      then show "nodes w1 b = None" using a1 struct_fresh[OF inv, of b] by (simp add: n1)
    qed (simp_all add: n1 q1)
    then show ?thesis using Throw x pl ne q1 by (simp add: assign_def c')
  next
    case (Ok c)
    with p have c: "c = ptr ?c" and h1: "holds (nodes w1) ?c"
      and f1: "\<And>b. b < next_addr w \<Longrightarrow> nodes w1 b = nodes w b"
      and fr1: "\<And>b. next_addr w1 \<le> b \<Longrightarrow> nodes w1 b = None"
      and x1: "next_addr w1 = next_addr w + length (addrs (T other))"
      by (simp_all add: copy_post_def)
    have below: "b < next_addr w" if "b \<in> set (addrs (T q))" for b q
      using struct_below[OF inv that] .
    have hth: "holds (nodes w) (T this)" and dt: "distinct (addrs (T this))"
      and rt: "root (queues w this) = ptr (T this)" using ot by (simp_all add: owns_def)
    have ht1: "holds (nodes w1) (T this)"
      using hth below[of _ this] f1 by (elim holds_frame) auto
    define w2 where "w2 = w1\<lparr>nodes := nodes w1 |` (- set (addrs (T this))),
                          released := rev (addrs (T this)) @ released w1\<rparr>"
    have d: "deleteTree w1 (ptr (T this)) = Some (Ok (), w2)"
      using deleteTree_owned[OF ht1 dt] by (simp add: w2_def)
    define w' where "w' = w2\<lparr>queues := (queues w)(this := (queues w this)
      \<lparr>root := c, count_pq := count_pq (queues w other), cmp := cmp (queues w other)\<rparr>)\<rparr>"
    have res: "assign w this other = Some (Ok this, w')"
      using ne by (simp add: assign_def c' Ok q1 rt d Let_def set_queue_def w'_def)
        (simp add: w2_def q1)
    have w': "nodes w' = nodes w1 |` (- set (addrs (T this)))" "next_addr w' = next_addr w1"
      "\<And>q. q \<noteq> this \<Longrightarrow> queues w' q = queues w q"
      "root (queues w' this) = c" "count_pq (queues w' this) = count_pq (queues w other)"
      "cmp (queues w' this) = cmp (queues w other)"
      by (simp_all add: w'_def w2_def)
    have "struct_inv (T(this := ?c)) w'"
    proof (rule struct_inv_update[OF inv, where Q = "{this}"])
      fix q assume "q \<notin> {this}"
      then show "queues w' q = queues w q \<and> (T(this := ?c)) q = T q" by (simp add: w')
    next
      fix b q assume q: "q \<notin> {this}" and b: "b \<in> set (addrs (T q))"
      have "b \<notin> set (addrs (T this))" using struct_disjoint[OF inv, of q this] q b by auto
      then show "nodes w' b = nodes w b"
        using below[OF b] by (simp add: w' f1 restrict_map_def)
    next
      fix q assume q: "q \<in> {this}"
      have "set (addrs ?c) \<inter> set (addrs (T this)) = {}"
        using below[of _ this] by (fastforce simp: set_addrs_clone)
      then have "holds (nodes w') ?c"
        using h1 unfolding w' by (elim holds_frame) (auto simp: restrict_map_def)
      then show "owns w' q ((T(this := ?c)) q) \<and> leftist_property ((T(this := ?c)) q)"
        using q oo c struct_leftist[OF inv, of other]
        by (simp add: owns_def w' distinct_addrs_clone)
    next
      fix q q' assume "q \<in> {this}" and "q' \<noteq> q"
      then show "set (addrs ((T(this := ?c)) q)) \<inter> set (addrs ((T(this := ?c)) q')) = {}"
        using below[of _ q'] by (fastforce simp: set_addrs_clone)
    next
      fix b assume "next_addr w' \<le> b"
      then show "nodes w' b = None" using fr1 by (simp add: w' restrict_map_def)
    qed
    with res show ?thesis using w'(3,6) by simp
  qed
qed

section \<open>Under a predicate that does not throw\<close>

lemma swo_asym: "strict_weak_order lt \<Longrightarrow> lt a b \<Longrightarrow> \<not> lt b a"
  unfolding strict_weak_order_def by blast

lemma swo_neg_trans:
  assumes "strict_weak_order lt" and "\<not> lt a b" and "\<not> lt b c"
  shows "\<not> lt a c"
proof
  assume ac: "lt a c"
  have tr: "\<And>x y z. lt x y \<Longrightarrow> lt y z \<Longrightarrow> lt x z"
    and inc: "\<And>x y z. \<not> lt x y \<Longrightarrow> \<not> lt y x \<Longrightarrow> \<not> lt y z \<Longrightarrow> \<not> lt z y \<Longrightarrow> \<not> lt x z"
    using assms(1) unfolding strict_weak_order_def by blast+
  have "\<not> lt b a" using tr[of b a c] ac assms(3) by blast
  moreover have "\<not> lt c b" using tr[of a c b] ac assms(2) by blast
  ultimately show False using inc[of a b c] assms(2,3) ac by blast
qed

lemma world_inv_struct: "world_inv lt T w \<Longrightarrow> struct_inv T w"
  and world_inv_cmp: "world_inv lt T w \<Longrightarrow> cmp (queues w q) = total_cmp lt"
  and world_inv_heap: "world_inv lt T w \<Longrightarrow> heap_property lt (T q)"
  by (simp_all add: world_inv_def)

lemma world_inv_owns: "world_inv lt T w \<Longrightarrow> owns w q (T q)"
  using world_inv_struct struct_owns by blast

lemma world_invI:
  "struct_inv T w \<Longrightarrow> (\<And>q. cmp (queues w q) = total_cmp lt) \<Longrightarrow> (\<And>q. heap_property lt (T q))
     \<Longrightarrow> world_inv lt T w"
  by (simp add: world_inv_def)

lemma struct_inv_initial: "struct_inv (\<lambda>_. Absent) (initial_world dflt plan)"
  by (simp add: struct_inv_def owns_def initial_world_def)

lemma world_inv_initial: "world_inv lt (\<lambda>_. Absent) (initial_world (total_cmp lt) plan)"
  by (rule world_invI[OF struct_inv_initial]) (simp_all add: initial_world_def)

lemma construct_struct:
  assumes inv: "struct_inv T w"
  shows "struct_inv (T(q := Absent)) (priority_queue_default dflt w q)"
proof (rule struct_inv_update[OF inv, where Q = "{q}"])
  fix b assume "next_addr (priority_queue_default dflt w q) \<le> b"
  then show "nodes (priority_queue_default dflt w q) b = None"
    using struct_fresh[OF inv, of b] by (simp add: priority_queue_default_def set_queue_def)
qed (simp_all add: priority_queue_default_def set_queue_def owns_def)

lemma construct_inv:
  assumes inv: "world_inv lt T w"
  shows "world_inv lt (T(q := Absent)) (priority_queue_default (total_cmp lt) w q)"
  using world_inv_cmp[OF inv] world_inv_heap[OF inv]
  by (intro world_invI construct_struct[OF world_inv_struct[OF inv]])
     (simp_all add: priority_queue_default_def set_queue_def)

lemma push_inv:
  assumes inv: "world_inv lt T w" and asym: "\<And>a b. lt a b \<Longrightarrow> \<not> lt b a"
  shows "\<exists>r w'. push w q e = Some (r, w') \<and>
     ((r = Throw bad_alloc \<and> world_inv lt T w') \<or>
      (r = Ok () \<and> (\<exists>t. merge_shape (total_cmp lt) (T q) (Present (next_addr w) e 0 Absent Absent) = Some t
          \<and> world_inv lt (T(q := t)) w')))"
proof -
  let ?N = "Present (next_addr w) e 0 Absent Absent"
  from push_struct[OF world_inv_struct[OF inv], of q e] obtain r w' where
    p: "push w q e = Some (r, w')" and cm: "\<And>q'. cmp (queues w' q') = cmp (queues w q')"
    and cases: "(r = Throw bad_alloc \<and> struct_inv T w') \<or>
      (r = Throw runtime_error \<and> struct_inv T w' \<and> merge_shape (cmp (queues w q)) (T q) ?N = None) \<or>
      (r = Ok () \<and> (\<exists>t. merge_shape (cmp (queues w q)) (T q) ?N = Some t \<and> struct_inv (T(q := t)) w'))"
    by blast
  have cq: "cmp (queues w' q') = total_cmp lt" for q'
    using cm[of q'] world_inv_cmp[OF inv] by simp
  have nt: "merge_shape (cmp (queues w q)) (T q) ?N \<noteq> None"
    using merge_shape_total[of lt "T q" ?N] world_inv_cmp[OF inv, of q] by simp
  from cases nt consider (alloc) "r = Throw bad_alloc" "struct_inv T w'"
    | (ok) t where "r = Ok ()" "merge_shape (total_cmp lt) (T q) ?N = Some t" "struct_inv (T(q := t)) w'"
    using world_inv_cmp[OF inv, of q] by auto
  then show ?thesis
  proof cases
    case alloc
    then have "world_inv lt T w'" using cq world_inv_heap[OF inv] by (intro world_invI) simp_all
    with p alloc show ?thesis by simp
  next
    case ok
    have "heap_property lt t"
      using merge_shape_heap[OF asym ok(2)] world_inv_heap[OF inv, of q] by simp
    then have "world_inv lt (T(q := t)) w'"
      using ok(3) cq world_inv_heap[OF inv] by (intro world_invI) simp_all
    with p ok show ?thesis by simp
  qed
qed

lemma pop_inv_empty:
  assumes inv: "world_inv lt T w" and e: "T q = Absent"
  shows "pop w q = Some (Throw container_is_empty, w)"
  using pop_struct_empty[OF world_inv_struct[OF inv] e] .

lemma pop_inv:
  assumes inv: "world_inv lt T w" and asym: "\<And>a b. lt a b \<Longrightarrow> \<not> lt b a"
    and T: "T q = Present a d n l r"
  shows "\<exists>t w'. pop w q = Some (Ok (), w') \<and> merge_shape (total_cmp lt) l r = Some t
           \<and> world_inv lt (T(q := t)) w'"
proof -
  from pop_struct[OF world_inv_struct[OF inv] T] obtain res w' where
    p: "pop w q = Some (res, w')" and cm: "\<And>q'. cmp (queues w' q') = cmp (queues w q')"
    and cases: "(res = Throw runtime_error \<and> w' = w \<and> merge_shape (cmp (queues w q)) l r = None) \<or>
      (res = Ok () \<and> (\<exists>t. merge_shape (cmp (queues w q)) l r = Some t \<and> struct_inv (T(q := t)) w'))"
    by blast
  have nt: "merge_shape (cmp (queues w q)) l r \<noteq> None"
    using merge_shape_total[of lt l r] world_inv_cmp[OF inv, of q] by simp
  from cases nt obtain t where r: "res = Ok ()" and t: "merge_shape (total_cmp lt) l r = Some t"
    and s: "struct_inv (T(q := t)) w'"
    using world_inv_cmp[OF inv, of q] by auto
  have "heap_property lt t"
    using merge_shape_heap[OF asym t] world_inv_heap[OF inv, of q] T by simp
  then have "world_inv lt (T(q := t)) w'"
    using s cm world_inv_cmp[OF inv] world_inv_heap[OF inv] by (intro world_invI) simp_all
  with p r t show ?thesis by simp
qed

lemma merge_inv:
  assumes inv: "world_inv lt T w" and asym: "\<And>a b. lt a b \<Longrightarrow> \<not> lt b a"
    and ne: "this \<noteq> other"
  shows "\<exists>t w'. merge w this other = Some (Ok (), w')
           \<and> merge_shape (total_cmp lt) (T this) (T other) = Some t
           \<and> world_inv lt (T(this := t, other := Absent)) w'
           \<and> count_pq (queues w' this) = count_pq (queues w this) + count_pq (queues w other)
           \<and> root (queues w' other) = None \<and> count_pq (queues w' other) = 0"
proof -
  from merge_struct[OF world_inv_struct[OF inv] ne] obtain res w' where
    p: "merge w this other = Some (res, w')" and cm: "\<And>q'. cmp (queues w' q') = cmp (queues w q')"
    and cases: "(res = Throw runtime_error \<and> w' = w
         \<and> merge_shape (cmp (queues w this)) (T this) (T other) = None) \<or>
      (res = Ok () \<and> (\<exists>t. merge_shape (cmp (queues w this)) (T this) (T other) = Some t
           \<and> struct_inv (T(this := t, other := Absent)) w'
           \<and> count_pq (queues w' this) = count_pq (queues w this) + count_pq (queues w other)
           \<and> root (queues w' other) = None \<and> count_pq (queues w' other) = 0))"
    by blast
  have nt: "merge_shape (cmp (queues w this)) (T this) (T other) \<noteq> None"
    using merge_shape_total[of lt "T this" "T other"] world_inv_cmp[OF inv, of this] by simp
  from cases nt obtain t where r: "res = Ok ()"
    and t: "merge_shape (total_cmp lt) (T this) (T other) = Some t"
    and s: "struct_inv (T(this := t, other := Absent)) w'"
    and rest: "count_pq (queues w' this) = count_pq (queues w this) + count_pq (queues w other)"
      "root (queues w' other) = None" "count_pq (queues w' other) = 0"
    using world_inv_cmp[OF inv, of this] by auto
  have "heap_property lt t"
    using merge_shape_heap[OF asym t] world_inv_heap[OF inv] by simp
  then have "world_inv lt (T(this := t, other := Absent)) w'"
    using s cm world_inv_cmp[OF inv] world_inv_heap[OF inv] by (intro world_invI) simp_all
  with p r t rest show ?thesis by simp
qed

lemma copy_inv:
  assumes inv: "world_inv lt T w" and ne: "this \<noteq> other"
  shows "\<exists>r w'. priority_queue_copy w this other = Some (r, w') \<and>
     (r = Ok () \<longrightarrow> world_inv lt (T(this := clone (next_addr w) (T other))) w') \<and>
     (\<forall>x. r = Throw x \<longrightarrow> x = bad_alloc \<and> world_inv lt T w') \<and>
     (list_all id (alloc_plan w) \<longrightarrow> r = Ok ())"
proof -
  from copy_struct[OF world_inv_struct[OF inv] ne] obtain r w' where
    p: "priority_queue_copy w this other = Some (r, w')"
    and ok: "r = Ok () \<Longrightarrow> struct_inv (T(this := clone (next_addr w) (T other))) w'
        \<and> cmp (queues w' this) = cmp (queues w other)
        \<and> (\<forall>q. q \<noteq> this \<longrightarrow> queues w' q = queues w q)"
    and th: "\<And>x. r = Throw x \<Longrightarrow> x = bad_alloc \<and> struct_inv T w' \<and> queues w' = queues w"
    and pl: "list_all id (alloc_plan w) \<longrightarrow> r = Ok ()"
    by blast
  have "world_inv lt (T(this := clone (next_addr w) (T other))) w'" if "r = Ok ()"
  proof (rule world_invI)
    show "struct_inv (T(this := clone (next_addr w) (T other))) w'" using ok[OF that] by simp
    show "cmp (queues w' q) = total_cmp lt" for q
      using ok[OF that] world_inv_cmp[OF inv] by (cases "q = this") auto
    show "heap_property lt ((T(this := clone (next_addr w) (T other))) q)" for q
      using world_inv_heap[OF inv] by simp
  qed
  moreover have "world_inv lt T w'" if "r = Throw x" for x
    using th[OF that] world_inv_cmp[OF inv] world_inv_heap[OF inv] by (intro world_invI) simp_all
  ultimately show ?thesis using p th pl by blast
qed

lemma assign_inv:
  assumes inv: "world_inv lt T w" and ne: "this \<noteq> other"
  shows "\<exists>r w'. assign w this other = Some (r, w') \<and>
     (r = Ok this \<longrightarrow> world_inv lt (T(this := clone (next_addr w) (T other))) w') \<and>
     (\<forall>x. r = Throw x \<longrightarrow> x = bad_alloc \<and> world_inv lt T w') \<and>
     (\<forall>q. r = Ok q \<longrightarrow> q = this) \<and>
     (list_all id (alloc_plan w) \<longrightarrow> r = Ok this)"
proof -
  from assign_struct[OF world_inv_struct[OF inv] ne] obtain r w' where
    p: "assign w this other = Some (r, w')"
    and ok: "r = Ok this \<Longrightarrow> struct_inv (T(this := clone (next_addr w) (T other))) w'
        \<and> cmp (queues w' this) = cmp (queues w other)
        \<and> (\<forall>q. q \<noteq> this \<longrightarrow> queues w' q = queues w q)"
    and th: "\<And>x. r = Throw x \<Longrightarrow> x = bad_alloc \<and> struct_inv T w' \<and> queues w' = queues w"
    and q: "\<forall>q. r = Ok q \<longrightarrow> q = this"
    and pl: "list_all id (alloc_plan w) \<longrightarrow> r = Ok this"
    by blast
  have "world_inv lt (T(this := clone (next_addr w) (T other))) w'" if "r = Ok this"
  proof (rule world_invI)
    show "struct_inv (T(this := clone (next_addr w) (T other))) w'" using ok[OF that] by simp
    show "cmp (queues w' q) = total_cmp lt" for q
      using ok[OF that] world_inv_cmp[OF inv] by (cases "q = this") auto
    show "heap_property lt ((T(this := clone (next_addr w) (T other))) q)" for q
      using world_inv_heap[OF inv] by simp
  qed
  moreover have "world_inv lt T w'" if "r = Throw x" for x
    using th[OF that] world_inv_cmp[OF inv] world_inv_heap[OF inv] by (intro world_invI) simp_all
  ultimately show ?thesis using p th q pl by blast
qed

lemma holds_unique: "holds s t \<Longrightarrow> holds s t' \<Longrightarrow> ptr t = ptr t' \<Longrightarrow> t = t'"
proof (induction t arbitrary: t')
  case Absent
  then show ?case by (cases t') auto
next
  case (Present a d n l r)
  then show ?case by (cases t') auto
qed

lemma owns_unique: "owns w q t \<Longrightarrow> owns w q t' \<Longrightarrow> t = t'"
  unfolding owns_def using holds_unique by metis

lemma reachable_pushes:
  "reachable c w \<Longrightarrow> pushes w q es = Some w' \<Longrightarrow> reachable c w'"
proof (induction es arbitrary: w)
  case Nil
  then show ?case by simp
next
  case (Cons e es)
  from Cons.prems(2) obtain r w1 where p: "push w q e = Some (r, w1)"
    and rest: "(case r of Ok _ \<Rightarrow> pushes w1 q es | Throw x \<Rightarrow> None | Fault \<Rightarrow> None) = Some w'"
    by (auto simp: bind_eq_Some_conv)
  from rest have r: "r = Ok ()" and ps: "pushes w1 q es = Some w'" by (cases r; simp)+
  from reachable.push[OF Cons.prems(1) p] r have "reachable c w1" by simp
  then show ?case using Cons.IH ps by blast
qed

lemma round_trip_pushes:
  "pushes (initial_world (total_cmp (<)) []) 0 [5, 3, 8, 1] = Some round_trip_world"
  by (simp add: push_def initial_world_def new_node_def mergeNodes.simps mergeNodes_relink_def
      set_queue_def total_cmp_def round_trip_world_def fun_eq_iff)

section \<open>Every reachable world satisfies the invariants\<close>

lemma reachable_struct:
  assumes "reachable dflt w"
  shows "\<exists>T. struct_inv T w"
  using assms
proof (induction rule: reachable.induct)
  case (start plan)
  show ?case using struct_inv_initial by blast
next
  case (construct w q)
  then show ?case using construct_struct by blast
next
  case (copy w this other r w')
  then obtain T where T: "struct_inv T w" by blast
  from copy_struct[OF T copy.hyps(2)] copy.hyps(3,4) show ?case
    by (cases r) auto
next
  case (assign w this other rq w')
  then obtain T where T: "struct_inv T w" by blast
  show ?case
  proof (cases "this = other")
    case True
    with assign.hyps(2) T show ?thesis by (auto simp: assign_def)
  next
    case False
    from assign_struct[OF T False] assign.hyps(2,3) show ?thesis
      by (cases rq) auto
  qed
next
  case (push w q e r w')
  then obtain T where T: "struct_inv T w" by blast
  from push_struct[OF T, of q e] push.hyps(2) show ?case by auto
next
  case (pop w q r w')
  then obtain T where T: "struct_inv T w" by blast
  show ?case
  proof (cases "T q")
    case Absent
    from pop_struct_empty[OF T Absent] pop.hyps(2) T show ?thesis by auto
  next
    case (Present a d n l r')
    from pop_struct[OF T Present] pop.hyps(2) T show ?thesis by auto
  qed
next
  case (merge w this other r w')
  then obtain T where T: "struct_inv T w" by blast
  show ?case
  proof (cases "this = other")
    case True
    with merge.hyps(2) T show ?thesis by (auto simp: merge_def)
  next
    case False
    from merge_struct[OF T False] merge.hyps(2) T show ?thesis by auto
  qed
qed

lemma reachable_inv:
  assumes "reachable (total_cmp lt) w" and asym: "\<And>a b. lt a b \<Longrightarrow> \<not> lt b a"
  shows "\<exists>T. world_inv lt T w"
  using assms(1)
proof (induction rule: reachable.induct)
  case (start plan)
  show ?case using world_inv_initial by blast
next
  case (construct w q)
  then show ?case using construct_inv by blast
next
  case (copy w this other r w')
  then obtain T where T: "world_inv lt T w" by blast
  from copy_inv[OF T copy.hyps(2), of ] copy.hyps(3,4) show ?case
    by (cases r) auto
next
  case (assign w this other rq w')
  then obtain T where T: "world_inv lt T w" by blast
  show ?case
  proof (cases "this = other")
    case True
    with assign.hyps(2) T show ?thesis by (auto simp: assign_def)
  next
    case False
    from assign_inv[OF T False] assign.hyps(2,3) show ?thesis
      by (cases rq) auto
  qed
next
  case (push w q e r w')
  then obtain T where T: "world_inv lt T w" by blast
  from push_inv[OF T asym, of q e] push.hyps(2) show ?case by auto
next
  case (pop w q r w')
  then obtain T where T: "world_inv lt T w" by blast
  show ?case
  proof (cases "T q")
    case Absent
    from pop_inv_empty[OF T Absent] pop.hyps(2) T show ?thesis by auto
  next
    case (Present a d n l r')
    from pop_inv[OF T asym Present] pop.hyps(2) show ?thesis by auto
  qed
next
  case (merge w this other r w')
  then obtain T where T: "world_inv lt T w" by blast
  show ?case
  proof (cases "this = other")
    case True
    with merge.hyps(2) T show ?thesis by (auto simp: merge_def)
  next
    case False
    from merge_inv[OF T asym False] merge.hyps(2) show ?thesis by auto
  qed
qed

section \<open>Maximum, removal order and copies of a tree\<close>

lemma elems_join: "elems (join a d l m) = {#d#} + elems l + elems m"
  by (simp add: join_def)

lemma merge_shape_elems:
  "merge_shape c t1 t2 = Some t \<Longrightarrow> elems t = elems t1 + elems t2"
proof (induction c t1 t2 arbitrary: t rule: merge_shape.induct)
  case (3 c a1 d1 n1 l1 r1 a2 d2 n2 l2 r2)
  from 3(3) obtain b where b: "c d1 d2 = Some b" by (auto split: option.splits)
  show ?case
  proof (cases b)
    case True
    with 3(3) b obtain m where m: "merge_shape c r2 (Present a1 d1 n1 l1 r1) = Some m"
      and t: "t = join a2 d2 l2 m" by auto
    from 3(1)[OF b True m] show ?thesis by (simp add: t elems_join)
  next
    case False
    with 3(3) b obtain m where m: "merge_shape c r1 (Present a2 d2 n2 l2 r2) = Some m"
      and t: "t = join a1 d1 l1 m" by auto
    from 3(2)[OF b False m] show ?thesis by (simp add: t elems_join)
  qed
qed simp_all

lemma size_elems: "size (elems t) = length (addrs t)"
  by (induction t) auto

lemma heap_max_aux:
  assumes swo: "strict_weak_order lt"
  shows "heap_property lt t \<Longrightarrow> root_not_less lt d t \<Longrightarrow> x \<in># elems t \<Longrightarrow> \<not> lt d x"
proof (induction t arbitrary: d)
  case Absent
  then show ?case by simp
next
  case (Present a c n l r)
  have dc: "\<not> lt d c" using Present.prems(2) by simp
  from Present.prems(3) consider "x = c" | "x \<in># elems l" | "x \<in># elems r" by auto
  then show ?case
  proof cases
    case 1
    with dc show ?thesis by simp
  next
    case 2
    have "\<not> lt c x" using Present.IH(1)[of c] Present.prems(1) 2 by simp
    with dc show ?thesis using swo_neg_trans[OF swo] by blast
  next
    case 3
    have "\<not> lt c x" using Present.IH(2)[of c] Present.prems(1) 3 by simp
    with dc show ?thesis using swo_neg_trans[OF swo] by blast
  qed
qed

lemma heap_max:
  assumes swo: "strict_weak_order lt" and "heap_property lt (Present a d n l r)"
    and "x \<in># elems (Present a d n l r)"
  shows "\<not> lt d x"
proof -
  have "\<not> lt d d" using swo by (simp add: strict_weak_order_def)
  then have "root_not_less lt d (Present a d n l r)" by simp
  then show ?thesis using heap_max_aux[OF swo assms(2) _ assms(3)] by blast
qed

lemma same_tree_refl: "same_tree t t"
  by (induction t) auto

lemma same_tree_clone: "same_tree t (clone a0 t)"
  by (induction t arbitrary: a0) auto

lemma same_tree_npl: "same_tree t u \<Longrightarrow> npl_of t = npl_of u"
  by (cases t; cases u) auto

lemma same_tree_elems: "same_tree t u \<Longrightarrow> elems t = elems u"
  by (induction t u rule: same_tree.induct) auto

lemma same_tree_join:
  "same_tree l l' \<Longrightarrow> same_tree m m' \<Longrightarrow> same_tree (join a d l m) (join a' d l' m')"
  using same_tree_npl[of l l'] same_tree_npl[of m m'] by (simp add: join_def)

lemma same_tree_merge:
  "same_tree t1 u1 \<Longrightarrow> same_tree t2 u2 \<Longrightarrow>
     rel_option same_tree (merge_shape c t1 t2) (merge_shape c u1 u2)"
proof (induction c t1 t2 arbitrary: u1 u2 rule: merge_shape.induct)
  case (1 c t2)
  then show ?case by (cases u1) auto
next
  case (2 c a1 d1 n1 l1 r1)
  then show ?case by (cases u1; cases u2) auto
next
  case (3 c a1 d1 n1 l1 r1 a2 d2 n2 l2 r2)
  from 3(3) obtain b1 k1 p1 where u1: "u1 = Present b1 d1 n1 k1 p1" and s1: "same_tree l1 k1" "same_tree r1 p1"
    by (cases u1) auto
  from 3(4) obtain b2 k2 p2 where u2: "u2 = Present b2 d2 n2 k2 p2" and s2: "same_tree l2 k2" "same_tree r2 p2"
    by (cases u2) auto
  show ?case
  proof (cases "c d1 d2")
    case None
    then show ?thesis by (simp add: u1 u2)
  next
    case (Some b)
    show ?thesis
    proof (cases b)
      case True
      have "rel_option same_tree (merge_shape c r2 (Present a1 d1 n1 l1 r1)) (merge_shape c p2 u1)"
        using 3(1)[OF Some True s2(2) 3(3)] .
      then show ?thesis using Some True s2(1)
        by (auto simp: u1 u2 option.rel_map elim!: option.rel_mono_strong intro: same_tree_join)
    next
      case False
      have "rel_option same_tree (merge_shape c r1 (Present a2 d2 n2 l2 r2)) (merge_shape c p1 u2)"
        using 3(2)[OF Some False s1(2) 3(4)] .
      then show ?thesis using Some False s1(1)
        by (auto simp: u1 u2 option.rel_map elim!: option.rel_mono_strong intro: same_tree_join)
    qed
  qed
qed

lemma same_tree_pops: "same_tree t u \<Longrightarrow> shape_pops c k t = shape_pops c k u"
proof (induction k arbitrary: t u)
  case 0
  then show ?case by simp
next
  case (Suc k)
  show ?case
  proof (cases t)
    case Absent
    with Suc.prems show ?thesis by (cases u) auto
  next
    case (Present a d n l r)
    with Suc.prems obtain a' l' r' where u: "u = Present a' d n l' r'"
      and s: "same_tree l l'" "same_tree r r'" by (cases u) auto
    from same_tree_merge[OF s, of c] show ?thesis
      using Suc.IH by (cases "merge_shape c l r"; cases "merge_shape c l' r'") (auto simp: Present u)
  qed
qed

lemma shape_pops_sorted:
  assumes swo: "strict_weak_order lt"
  shows "heap_property lt t \<Longrightarrow> length (addrs t) = k \<Longrightarrow>
    \<exists>ds. shape_pops (total_cmp lt) k t = Some ds \<and> mset ds = elems t \<and> sorted_wrt (\<lambda>x y. \<not> lt x y) ds"
proof (induction k arbitrary: t)
  case 0
  then show ?case by (cases t) auto
next
  case (Suc k)
  then obtain a d n l r where t: "t = Present a d n l r" by (cases t) auto
  obtain m where m: "merge_shape (total_cmp lt) l r = Some m" using merge_shape_total by blast
  have hm: "heap_property lt m"
    using merge_shape_heap[OF swo_asym[OF swo] m] Suc.prems(1) t by simp
  have "mset (addrs m) = mset (addrs l @ addrs r)" using merge_shape_addrs[OF m] by simp
  then have "length (addrs m) = k" using mset_eq_length Suc.prems(2) t by fastforce
  from Suc.IH[OF hm this] obtain ds where ds: "shape_pops (total_cmp lt) k m = Some ds"
    "mset ds = elems m" "sorted_wrt (\<lambda>x y. \<not> lt x y) ds" by blast
  have em: "elems m = elems l + elems r" using merge_shape_elems[OF m] .
  have "\<not> lt d x" if "x \<in> set ds" for x
  proof -
    have "x \<in># elems t" using that ds(2) em t by (metis mset_subset_eqD mset_subset_eq_add_right set_mset_mset elems.simps(2) union_iff)
    then show ?thesis using heap_max[OF swo] Suc.prems(1) t by blast
  qed
  then show ?case using ds em m by (auto simp: t)
qed

lemma merge_shape_length:
  "merge_shape c t1 t2 = Some t \<Longrightarrow> length (addrs t) = length (addrs t1) + length (addrs t2)"
  using merge_shape_addrs[of c t1 t2 t] by (metis size_mset size_union)

lemma top_owned:
  "owns w q (Present a d n l r) \<Longrightarrow> top_pq w q = (Ok d, w)"
  "owns w q Absent \<Longrightarrow> top_pq w q = (Throw container_is_empty, w)"
  by (simp_all add: owns_def top_pq_def)

lemma pop_sequence_struct:
  assumes "struct_inv T w"
  shows "case shape_pops (cmp (queues w q)) k (T q) of
           None \<Rightarrow> pop_sequence k w q = None
         | Some ds \<Rightarrow> (\<exists>w' T'. pop_sequence k w q = Some (ds, w') \<and> struct_inv T' w'
              \<and> length (addrs (T' q)) + k = length (addrs (T q))
              \<and> (\<forall>q'. q' \<noteq> q \<longrightarrow> T' q' = T q'))"
  using assms
proof (induction k arbitrary: w T)
  case 0
  then show ?case by auto
next
  case (Suc k)
  note inv = Suc.prems
  show ?case
  proof (cases "T q")
    case Absent
    then show ?thesis using top_owned(2)[of w q] struct_owns[OF inv, of q] by simp
  next
    case (Present a d n l r)
    have top: "top_pq w q = (Ok d, w)"
      using top_owned(1)[of w q a d n l r] struct_owns[OF inv, of q] Present by simp
    from pop_struct[OF inv Present] obtain res w1 where
      p: "pop w q = Some (res, w1)" and cm: "\<And>q'. cmp (queues w1 q') = cmp (queues w q')"
      and cases: "(res = Throw runtime_error \<and> w1 = w \<and> merge_shape (cmp (queues w q)) l r = None) \<or>
        (res = Ok () \<and> (\<exists>t. merge_shape (cmp (queues w q)) l r = Some t \<and> struct_inv (T(q := t)) w1))"
      by blast
    show ?thesis
    proof (cases "merge_shape (cmp (queues w q)) l r")
      case None
      with cases have "res = Throw runtime_error" by auto
      then show ?thesis using None top p by (simp add: Present)
    next
      case (Some t)
      with cases have res: "res = Ok ()" and s1: "struct_inv (T(q := t)) w1" by auto
      have ps: "pop_sequence (Suc k) w q = map_option (\<lambda>(ds, w3). (d # ds, w3)) (pop_sequence k w1 q)"
        using top p res by simp
      have sp: "shape_pops (cmp (queues w q)) (Suc k) (T q)
                  = map_option ((#) d) (shape_pops (cmp (queues w1 q)) k t)"
        using Some cm[of q] by (simp add: Present)
      have len: "length (addrs t) + 1 = length (addrs (T q))"
        using merge_shape_length[OF Some] by (simp add: Present)
      from Suc.IH[OF s1] have IH: "case shape_pops (cmp (queues w1 q)) k t of
           None \<Rightarrow> pop_sequence k w1 q = None
         | Some ds \<Rightarrow> (\<exists>w' T'. pop_sequence k w1 q = Some (ds, w') \<and> struct_inv T' w'
              \<and> length (addrs (T' q)) + k = length (addrs t)
              \<and> (\<forall>q'. q' \<noteq> q \<longrightarrow> T' q' = (T(q := t)) q'))"
        by (simp cong: option.case_cong)
      show ?thesis
      proof (cases "shape_pops (cmp (queues w1 q)) k t")
        case None
        with IH show ?thesis unfolding ps sp by simp
      next
        case (Some ds)
        with IH obtain w' T' where "pop_sequence k w1 q = Some (ds, w')" "struct_inv T' w'"
          "length (addrs (T' q)) + k = length (addrs t)" "\<forall>q'. q' \<noteq> q \<longrightarrow> T' q' = (T(q := t)) q'"
          by auto
        then show ?thesis using len Some unfolding ps sp by auto
      qed
    qed
  qed
qed

lemma pop_sequence_fst:
  assumes "struct_inv T w"
  shows "map_option fst (pop_sequence k w q) = shape_pops (cmp (queues w q)) k (T q)"
  using pop_sequence_struct[OF assms, where q = q and k = k]
  by (cases "shape_pops (cmp (queues w q)) k (T q)") auto

lemma reachable_cmp:
  assumes "reachable dflt w"
  shows "cmp (queues w q) = dflt"
  using assms
proof (induction arbitrary: q rule: reachable.induct)
  case (start plan)
  show ?case by (simp add: initial_world_def)
next
  case (construct w q')
  then show ?case by (simp add: priority_queue_default_def set_queue_def)
next
  case (copy w this other r w')
  from reachable_struct[OF copy.hyps(1)] obtain T where T: "struct_inv T w" by blast
  from copy_struct[OF T copy.hyps(2)] copy.hyps(3,4) copy.IH show ?case
    by (cases r; cases "q = this") auto
next
  case (assign w this other rq w')
  from reachable_struct[OF assign.hyps(1)] obtain T where T: "struct_inv T w" by blast
  show ?case
  proof (cases "this = other")
    case True
    with assign.hyps(2) assign.IH show ?thesis by (auto simp: assign_def)
  next
    case False
    from assign_struct[OF T False] assign.hyps(2,3) assign.IH show ?thesis
      by (cases rq; cases "q = this") auto
  qed
next
  case (push w q' e r w')
  from reachable_struct[OF push.hyps(1)] obtain T where T: "struct_inv T w" by blast
  from push_struct[OF T, of q' e] push.hyps(2) push.IH show ?case by auto
next
  case (pop w q' r w')
  from reachable_struct[OF pop.hyps(1)] obtain T where T: "struct_inv T w" by blast
  show ?case
  proof (cases "T q'")
    case Absent
    from pop_struct_empty[OF T Absent] pop.hyps(2) pop.IH show ?thesis by auto
  next
    case (Present a d n l r')
    from pop_struct[OF T Present] pop.hyps(2) pop.IH show ?thesis by auto
  qed
next
  case (merge w this other r w')
  from reachable_struct[OF merge.hyps(1)] obtain T where T: "struct_inv T w" by blast
  show ?case
  proof (cases "this = other")
    case True
    with merge.hyps(2) merge.IH show ?thesis by (auto simp: merge_def)
  next
    case False
    from merge_struct[OF T False] merge.hyps(2) merge.IH show ?thesis by auto
  qed
qed

text \<open>A push or pop on one container leaves the tree of every other container as it is.\<close>

lemma push_keeps_others:
  assumes T: "struct_inv T w" and ne: "q' \<noteq> q" and p: "push w q e = Some (r, u)"
  shows "owns u q' (T q')"
proof -
  from push_struct[OF T, of q e] p obtain T' where "struct_inv T' u" "T' q' = T q'"
    using ne by (elim exE conjE disjE) (auto simp: fun_upd_def)
  then show ?thesis using struct_owns by metis
qed

lemma pop_keeps_others:
  assumes T: "struct_inv T w" and ne: "q' \<noteq> q" and p: "pop w q = Some (r, u)"
  shows "owns u q' (T q')"
proof (cases "T q")
  case Absent
  from pop_struct_empty[OF T Absent] p have "u = w" by simp
  then show ?thesis using struct_owns[OF T] by simp
next
  case (Present a d n l r')
  from pop_struct[OF T Present] p obtain T' where "struct_inv T' u" "T' q' = T q'"
    using ne T by (elim exE conjE disjE) (auto simp: fun_upd_def)
  then show ?thesis using struct_owns by metis
qed

section \<open>The concrete worlds\<close>

lemma swo_less: "strict_weak_order ((<) :: nat \<Rightarrow> nat \<Rightarrow> bool)"
  by (auto simp: strict_weak_order_def)

lemma reachable_round_trip: "reachable (total_cmp (<)) round_trip_world"
  using reachable_pushes[OF reachable.start round_trip_pushes] .

lemma owns_round_trip: "owns round_trip_world 0 round_trip_shape"
  by (simp add: owns_def round_trip_world_def round_trip_shape_def)

lemma two_queues_pushes: "pushes round_trip_world 1 [4, 9] = Some two_queues_world"
  by (simp add: push_def round_trip_world_def new_node_def mergeNodes.simps mergeNodes_relink_def
      set_queue_def total_cmp_def two_queues_world_def fun_eq_iff)

lemma reachable_two_queues: "reachable (total_cmp (<)) two_queues_world"
  using reachable_pushes[OF reachable_round_trip two_queues_pushes] .

lemma owns_two_queues:
  "owns two_queues_world 0 round_trip_shape" "owns two_queues_world 1 second_shape"
  by (simp_all add: owns_def two_queues_world_def round_trip_shape_def second_shape_def)

lemma merge_two_queues: "merge two_queues_world 0 1 = Some (Ok (), merged_world)"
  by (simp add: merge_def two_queues_world_def mergeNodes.simps mergeNodes_relink_def
      set_queue_def total_cmp_def merged_world_def fun_eq_iff Let_def)

lemma copy_round_trip: "priority_queue_copy round_trip_world 1 0 = Some (Ok (), copied_world)"
  by (simp add: priority_queue_copy_def round_trip_world_def copyTree.simps new_node_def
      write_node_def set_queue_def copied_world_def fun_eq_iff Let_def)

lemma assign_round_trip: "assign round_trip_world 1 0 = Some (Ok 1, copied_world)"
  by (simp add: assign_def round_trip_world_def copyTree.simps deleteTree.simps new_node_def
      write_node_def set_queue_def copied_world_def fun_eq_iff Let_def)

lemma pops_round_trip: "map_option fst (pop_sequence 4 round_trip_world 0) = Some [8, 5, 3, 1]"
  by (simp add: numeral_eq_Suc top_pq_def pop_def round_trip_world_def mergeNodes.simps
      mergeNodes_relink_def delete_node_def set_queue_def total_cmp_def Let_def)

section \<open>The invariants of the data model\<close>

text \<open>
  C6. In every world reachable by the public operations under a strict weak ordering
  that does not throw, the tree a container owns satisfies the heap property: no
  child's element compares greater than its parent's. The tree is the only one the
  container owns.
\<close>

theorem heap_property_reachable:
  assumes "reachable (total_cmp lt) w" and "strict_weak_order lt"
  shows "\<exists>t. owns w q t \<and> heap_property lt t \<and> (\<forall>t'. owns w q t' \<longrightarrow> t' = t)"
proof -
  from reachable_inv[OF assms(1) swo_asym[OF assms(2)]] obtain T where T: "world_inv lt T w"
    by blast
  have "owns w q (T q)" by (rule world_inv_owns[OF T])
  moreover have "heap_property lt (T q)" by (rule world_inv_heap[OF T])
  ultimately show ?thesis using owns_unique by blast
qed

theorem heap_property_reachable_witness:
  "reachable (total_cmp (<)) round_trip_world \<and> strict_weak_order ((<) :: nat \<Rightarrow> nat \<Rightarrow> bool)
   \<and> owns round_trip_world 0 round_trip_shape \<and> heap_property (<) round_trip_shape"
proof -
  from heap_property_reachable[OF reachable_round_trip swo_less, of 0] obtain t where
    "heap_property (<) t" "\<forall>t'. owns round_trip_world 0 t' \<longrightarrow> t' = t" by blast
  with owns_round_trip have "heap_property (<) round_trip_shape" by blast
  with reachable_round_trip swo_less owns_round_trip show ?thesis by blast
qed

text \<open>
  C7. In every reachable world, whatever the comparison object does, the tree a
  container owns satisfies the leftist property on the stored \<open>npl\<close> fields: at every
  node \<open>npl(left) \<ge> npl(right)\<close> with \<open>npl\<close> of an absent node \<open>-1\<close>, and the node's \<open>npl\<close> is
  \<open>npl(right) + 1\<close>. And the merge primitive keeps it: on two disjoint leftist trees held
  by the store, when no comparison throws, \<open>mergeNodes\<close> returns the root of a leftist
  tree that the new store holds.
\<close>

theorem leftist_property_reachable:
  assumes "reachable dflt w"
  shows "(\<exists>t. owns w q t \<and> leftist_property t \<and> (\<forall>t'. owns w q t' \<longrightarrow> t' = t))
       \<and> (\<forall>s t1 t2 t. holds s t1 \<and> holds s t2 \<and> distinct (addrs t1 @ addrs t2)
             \<and> leftist_property t1 \<and> leftist_property t2 \<and> merge_shape c t1 t2 = Some t
           \<longrightarrow> (\<exists>s'. mergeNodes c s (ptr t1) (ptr t2) = Some (Ok (ptr t), s')
                  \<and> holds s' t \<and> leftist_property t))"
proof (intro conjI allI impI)
  from reachable_struct[OF assms] obtain T where T: "struct_inv T w" by blast
  have "owns w q (T q)" by (rule struct_owns[OF T])
  moreover have "leftist_property (T q)" by (rule struct_leftist[OF T])
  ultimately show "\<exists>t. owns w q t \<and> leftist_property t \<and> (\<forall>t'. owns w q t' \<longrightarrow> t' = t)"
    using owns_unique by blast
next
  fix s :: "'b store" and t1 t2 t
  assume h: "holds s t1 \<and> holds s t2 \<and> distinct (addrs t1 @ addrs t2)
             \<and> leftist_property t1 \<and> leftist_property t2 \<and> merge_shape c t1 t2 = Some t"
  then have m: "merge_shape c t1 t2 = Some t" by simp
  from h mergeNodes_refines[of s t1 t2 c] m
  have "\<exists>s'. mergeNodes c s (ptr t1) (ptr t2) = Some (Ok (ptr t), s') \<and> holds s' t"
    by (auto simp: merge_result_def)
  moreover have "leftist_property t" using merge_shape_leftist[OF m] h by simp
  ultimately show "\<exists>s'. mergeNodes c s (ptr t1) (ptr t2) = Some (Ok (ptr t), s')
                  \<and> holds s' t \<and> leftist_property t" by blast
qed

theorem leftist_property_reachable_witness:
  "reachable (total_cmp (<)) two_queues_world
   \<and> owns two_queues_world 0 round_trip_shape \<and> leftist_property round_trip_shape
   \<and> merge_shape (total_cmp (<)) round_trip_shape second_shape = Some merged_shape
   \<and> (\<exists>s'. mergeNodes (total_cmp (<)) (nodes two_queues_world) (Some 2) (Some 5)
              = Some (Ok (Some 5), s') \<and> holds s' merged_shape)
   \<and> leftist_property merged_shape"
proof -
  note L = leftist_property_reachable[OF reachable_two_queues, of 0 "total_cmp (<)"]
  from L obtain t where
    "leftist_property t" "\<forall>t'. owns two_queues_world 0 t' \<longrightarrow> t' = t" by blast
  with owns_two_queues(1) have l1: "leftist_property round_trip_shape" by blast
  have m: "merge_shape (total_cmp (<)) round_trip_shape second_shape = Some merged_shape"
    by (simp add: round_trip_shape_def second_shape_def merged_shape_def total_cmp_def join_def)
  have pre: "holds (nodes two_queues_world) round_trip_shape \<and> holds (nodes two_queues_world) second_shape
      \<and> distinct (addrs round_trip_shape @ addrs second_shape)
      \<and> leftist_property round_trip_shape \<and> leftist_property second_shape
      \<and> merge_shape (total_cmp (<)) round_trip_shape second_shape = Some merged_shape"
    using m by (simp add: round_trip_shape_def second_shape_def two_queues_world_def)
  from L pre have "\<exists>s'. mergeNodes (total_cmp (<)) (nodes two_queues_world)
        (ptr round_trip_shape) (ptr second_shape) = Some (Ok (ptr merged_shape), s')
      \<and> holds s' merged_shape \<and> leftist_property merged_shape"
    by blast
  then show ?thesis using reachable_two_queues owns_two_queues(1) l1 m
    by (simp add: round_trip_shape_def second_shape_def merged_shape_def)
qed

text \<open>
  The container invariant on the runs that are defined. In every reachable world,
  whatever the comparison object does, \<open>count\<close> is 0 exactly when the root is absent, and
  \<open>count\<close> is the number of nodes of the tree the store holds at the root (its nodes
  have pairwise different addresses); \<open>size\<close> returns that number and \<open>empty\<close> says
  whether the root is absent. Reachable worlds include those an operation leaves when
  it throws; a copy that faults leaves none.
\<close>

lemma count_invariant_reachable:
  assumes "reachable dflt w"
  shows "(count_pq (queues w q) = 0 \<longleftrightarrow> root (queues w q) = None)
       \<and> (\<exists>t. holds (nodes w) t \<and> distinct (addrs t) \<and> ptr t = root (queues w q)
               \<and> count_pq (queues w q) = length (addrs t) \<and> size_pq w q = length (addrs t))
       \<and> (empty_pq w q \<longleftrightarrow> root (queues w q) = None)"
proof -
  from reachable_struct[OF assms] obtain T where T: "struct_inv T w" by blast
  have o: "owns w q (T q)" by (rule struct_owns[OF T])
  then have z: "count_pq (queues w q) = 0 \<longleftrightarrow> root (queues w q) = None"
    by (cases "T q") (auto simp: owns_def)
  moreover have "\<exists>t. holds (nodes w) t \<and> distinct (addrs t) \<and> ptr t = root (queues w q)
               \<and> count_pq (queues w q) = length (addrs t) \<and> size_pq w q = length (addrs t)"
    using o by (auto simp: owns_def size_pq_def)
  ultimately show ?thesis by (simp add: empty_pq_def)
qed

lemma count_invariant_reachable_example:
  "reachable (total_cmp (<)) two_queues_world
   \<and> count_pq (queues two_queues_world 0) \<noteq> 0 \<and> root (queues two_queues_world 0) \<noteq> None
   \<and> \<not> empty_pq two_queues_world 0
   \<and> count_pq (queues two_queues_world 2) = 0 \<and> root (queues two_queues_world 2) = None
   \<and> empty_pq two_queues_world 2"
proof -
  have a: "count_pq (queues two_queues_world 0) \<noteq> 0" "count_pq (queues two_queues_world 2) = 0"
    by (simp_all add: two_queues_world_def)
  from count_invariant_reachable[OF reachable_two_queues, of 0] a(1)
  have "root (queues two_queues_world 0) \<noteq> None \<and> \<not> empty_pq two_queues_world 0" by simp
  moreover from count_invariant_reachable[OF reachable_two_queues, of 2] a(2)
  have "root (queues two_queues_world 2) = None \<and> empty_pq two_queues_world 2" by simp
  ultimately show ?thesis using reachable_two_queues a by blast
qed

section \<open>Maximum, merge and copy\<close>

text \<open>
  C2. In every world reachable under a strict weak ordering \<open>lt\<close> that does not throw,
  for a container that owns the tree \<open>t\<close>: when it is not empty, \<open>top\<close> returns an element
  it holds that is not less than any element it holds; and a client that calls \<open>top\<close>
  and \<open>pop\<close> as many times as \<open>size\<close> says gets every held element, each one not less
  than any later one, and leaves the container empty, where \<open>top\<close> and \<open>pop\<close> raise
  \<open>container_is_empty\<close>.
\<close>

theorem top_is_maximum:
  assumes "reachable (total_cmp lt) w" and "strict_weak_order lt" and "owns w q t"
  shows "(t \<noteq> Absent \<longrightarrow>
            (\<exists>d. top_pq w q = (Ok d, w) \<and> d \<in># elems t \<and> (\<forall>x\<in>#elems t. \<not> lt d x)))
       \<and> (\<exists>ds w'. pop_sequence (size_pq w q) w q = Some (ds, w') \<and> mset ds = elems t
              \<and> sorted_wrt (\<lambda>x y. \<not> lt x y) ds \<and> empty_pq w' q
              \<and> top_pq w' q = (Throw container_is_empty, w')
              \<and> pop w' q = Some (Throw container_is_empty, w'))"
proof (intro conjI impI)
  from reachable_inv[OF assms(1) swo_asym[OF assms(2)]] obtain T where T: "world_inv lt T w"
    by blast
  have Tq: "T q = t" using owns_unique[OF world_inv_owns[OF T] assms(3)] .
  have hp: "heap_property lt t" using world_inv_heap[OF T, of q] Tq by simp
  {
    assume "t \<noteq> Absent"
    then obtain a d n l r where t: "t = Present a d n l r" by (cases t) auto
    have "top_pq w q = (Ok d, w)" using top_owned(1)[of w q a d n l r] assms(3) t by simp
    moreover have "d \<in># elems t" by (simp add: t)
    moreover have "\<forall>x\<in>#elems t. \<not> lt d x" using heap_max[OF assms(2), of a d n l r] hp t by simp
    ultimately show "\<exists>d. top_pq w q = (Ok d, w) \<and> d \<in># elems t \<and> (\<forall>x\<in>#elems t. \<not> lt d x)"
      by blast
  }
  let ?k = "length (addrs t)"
  have sz: "size_pq w q = ?k" using assms(3) by (simp add: owns_def size_pq_def)
  from shape_pops_sorted[OF assms(2) hp refl] obtain ds where
    ds: "shape_pops (total_cmp lt) ?k t = Some ds" "mset ds = elems t"
      "sorted_wrt (\<lambda>x y. \<not> lt x y) ds" by blast
  from pop_sequence_struct[OF world_inv_struct[OF T], where q = q and k = ?k] ds(1)
  obtain w' T' where ps: "pop_sequence ?k w q = Some (ds, w')" and s': "struct_inv T' w'"
    and len: "length (addrs (T' q)) + ?k = length (addrs (T q))"
    by (auto simp: world_inv_cmp[OF T] Tq)
  from len Tq have "T' q = Absent" by (cases "T' q") auto
  then have o: "owns w' q Absent" using struct_owns[OF s', of q] by simp
  then have "empty_pq w' q" by (simp add: owns_def empty_pq_def)
  moreover have "top_pq w' q = (Throw container_is_empty, w')" using top_owned(2)[OF o] .
  moreover have "pop w' q = Some (Throw container_is_empty, w')"
    using pop_struct_empty[OF s' \<open>T' q = Absent\<close>] .
  ultimately show "\<exists>ds w'. pop_sequence (size_pq w q) w q = Some (ds, w') \<and> mset ds = elems t
              \<and> sorted_wrt (\<lambda>x y. \<not> lt x y) ds \<and> empty_pq w' q
              \<and> top_pq w' q = (Throw container_is_empty, w')
              \<and> pop w' q = Some (Throw container_is_empty, w')"
    using ps ds sz by auto
qed

theorem top_is_maximum_witness:
  "reachable (total_cmp (<)) round_trip_world \<and> strict_weak_order ((<) :: nat \<Rightarrow> nat \<Rightarrow> bool)
   \<and> owns round_trip_world 0 round_trip_shape \<and> round_trip_shape \<noteq> Absent
   \<and> top_pq round_trip_world 0 = (Ok 8, round_trip_world)
   \<and> 5 \<in># elems round_trip_shape \<and> \<not> (8::nat) < 5
   \<and> map_option fst (pop_sequence (size_pq round_trip_world 0) round_trip_world 0) = Some [8, 5, 3, 1]
   \<and> sorted_wrt (\<lambda>x y. \<not> x < y) [8, 5, 3, 1 :: nat]"
proof -
  note M = top_is_maximum[OF reachable_round_trip swo_less owns_round_trip]
  have ne: "round_trip_shape \<noteq> Absent" by (simp add: round_trip_shape_def)
  have tp: "top_pq round_trip_world 0 = (Ok 8, round_trip_world)"
    by (simp add: top_pq_def round_trip_world_def)
  have sz: "size_pq round_trip_world 0 = 4" by (simp add: size_pq_def round_trip_world_def)
  have el: "5 \<in># elems round_trip_shape" by (simp add: round_trip_shape_def)
  from M ne tp have "\<forall>x\<in>#elems round_trip_shape. \<not> 8 < x" by auto
  with el have mx: "\<not> (8::nat) < 5" by blast
  from M obtain ds w' where "pop_sequence (size_pq round_trip_world 0) round_trip_world 0 = Some (ds, w')"
    and srt: "sorted_wrt (\<lambda>x y. \<not> x < y) ds" by blast
  with pops_round_trip sz have "ds = [8, 5, 3, 1]" by simp
  with srt have "sorted_wrt (\<lambda>x y. \<not> x < y) [8, 5, 3, 1 :: nat]" by simp
  with reachable_round_trip swo_less owns_round_trip ne tp el mx pops_round_trip sz show ?thesis
    by simp
qed

text \<open>
  C3. In every reachable world, for two different containers that own the trees \<open>t1\<close>
  and \<open>t2\<close>: a \<open>merge\<close> that returns normally leaves the receiver owning a tree whose
  elements are the multiset union of both, with size the sum of both sizes, and leaves
  the other container empty (root absent, count 0). Under a predicate that does not
  throw, \<open>merge\<close> does return normally. A \<open>merge\<close> of a container with itself returns
  normally and changes nothing.
\<close>

theorem merge_containers:
  assumes "reachable dflt w" and "owns w this t1" and "owns w other t2"
  shows "(this \<noteq> other \<longrightarrow>
           (\<forall>w'. merge w this other = Some (Ok (), w') \<longrightarrow>
              (\<exists>t. owns w' this t \<and> elems t = elems t1 + elems t2
                 \<and> size_pq w' this = size_pq w this + size_pq w other
                 \<and> owns w' other Absent \<and> root (queues w' other) = None
                 \<and> size_pq w' other = 0 \<and> empty_pq w' other)))
       \<and> (this \<noteq> other \<and> (\<exists>lt. dflt = total_cmp lt)
            \<longrightarrow> (\<exists>w'. merge w this other = Some (Ok (), w')))
       \<and> merge w this this = Some (Ok (), w)"
proof (intro conjI allI impI)
  from reachable_struct[OF assms(1)] obtain T where T: "struct_inv T w" by blast
  have T1: "T this = t1" using owns_unique[OF struct_owns[OF T] assms(2)] .
  have T2: "T other = t2" using owns_unique[OF struct_owns[OF T] assms(3)] .
  {
    fix w' assume ne: "this \<noteq> other" and m: "merge w this other = Some (Ok (), w')"
    from merge_struct[OF T ne] m obtain t where
      t: "merge_shape (cmp (queues w this)) t1 t2 = Some t"
      and s: "struct_inv (T(this := t, other := Absent)) w'"
      and c: "count_pq (queues w' this) = count_pq (queues w this) + count_pq (queues w other)"
        "root (queues w' other) = None" "count_pq (queues w' other) = 0"
      by (auto simp: T1 T2)
    have "owns w' this t" using struct_owns[OF s, of this] ne by simp
    moreover have "owns w' other Absent" using struct_owns[OF s, of other] by simp
    moreover have "elems t = elems t1 + elems t2" using merge_shape_elems[OF t] .
    ultimately show "\<exists>t. owns w' this t \<and> elems t = elems t1 + elems t2
                 \<and> size_pq w' this = size_pq w this + size_pq w other
                 \<and> owns w' other Absent \<and> root (queues w' other) = None
                 \<and> size_pq w' other = 0 \<and> empty_pq w' other"
      using c by (auto simp: size_pq_def empty_pq_def)
  }
  {
    assume h: "this \<noteq> other \<and> (\<exists>lt. dflt = total_cmp lt)"
    then obtain lt where lt: "dflt = total_cmp lt" and ne: "this \<noteq> other" by blast
    have "merge_shape (cmp (queues w this)) (T this) (T other) \<noteq> None"
      using merge_shape_total[of lt "T this" "T other"] reachable_cmp[OF assms(1), of this] lt
      by simp
    with merge_struct[OF T ne] show "\<exists>w'. merge w this other = Some (Ok (), w')" by auto
  }
  show "merge w this this = Some (Ok (), w)" by (simp add: merge_def)
qed

theorem merge_containers_witness:
  "reachable (total_cmp (<)) two_queues_world
   \<and> owns two_queues_world 0 round_trip_shape \<and> owns two_queues_world 1 second_shape
   \<and> merge two_queues_world 0 1 = Some (Ok (), merged_world)
   \<and> (\<exists>t. owns merged_world 0 t \<and> elems t = elems round_trip_shape + elems second_shape)
   \<and> size_pq merged_world 0 = size_pq two_queues_world 0 + size_pq two_queues_world 1
   \<and> size_pq merged_world 1 = 0 \<and> root (queues merged_world 1) = None
   \<and> merge two_queues_world 0 0 = Some (Ok (), two_queues_world)"
proof -
  note M = merge_containers[OF reachable_two_queues owns_two_queues(1) owns_two_queues(2)]
  have ne: "(0::nat) \<noteq> 1" by simp
  from M ne merge_two_queues
  have "\<exists>t. owns merged_world 0 t \<and> elems t = elems round_trip_shape + elems second_shape
                 \<and> size_pq merged_world 0 = size_pq two_queues_world 0 + size_pq two_queues_world 1
                 \<and> owns merged_world 1 Absent \<and> root (queues merged_world 1) = None
                 \<and> size_pq merged_world 1 = 0 \<and> empty_pq merged_world 1"
    by blast
  moreover have "merge two_queues_world 0 0 = Some (Ok (), two_queues_world)"
    using merge_containers[OF reachable_two_queues owns_two_queues(1) owns_two_queues(1)] by blast
  ultimately show ?thesis
    using reachable_two_queues owns_two_queues merge_two_queues by blast
qed

text \<open>
  C9. In every reachable world, when the copy constructor or \<open>operator=\<close> returns
  normally for a receiver other than the source: the source still owns its tree \<open>t\<close>,
  the receiver owns a tree \<open>t'\<close> of the same structure, elements and \<open>npl\<close> values, in
  nodes none of which is a node of \<open>t\<close>, and it has the source's comparison object; the
  two give the same elements to a client that calls \<open>top\<close> and \<open>pop\<close> any number of
  times; and after a \<open>push\<close> or \<open>pop\<close> on one of them, whatever its outcome, the other
  still owns the same tree.
\<close>

theorem copy_is_independent_clone:
  assumes "reachable dflt w" and "this \<noteq> other" and "owns w other t"
    and "priority_queue_copy w this other = Some (Ok (), w')
         \<or> assign w this other = Some (Ok this, w')"
  shows "\<exists>t'. owns w' this t' \<and> owns w' other t \<and> same_tree t t'
           \<and> set (addrs t) \<inter> set (addrs t') = {}
           \<and> cmp (queues w' this) = cmp (queues w' other)
           \<and> (\<forall>k. map_option fst (pop_sequence k w' this) = map_option fst (pop_sequence k w' other))
           \<and> (\<forall>e r u. push w' this e = Some (r, u) \<longrightarrow> owns u other t)
           \<and> (\<forall>r u. pop w' this = Some (r, u) \<longrightarrow> owns u other t)
           \<and> (\<forall>e r u. push w' other e = Some (r, u) \<longrightarrow> owns u this t')
           \<and> (\<forall>r u. pop w' other = Some (r, u) \<longrightarrow> owns u this t')"
proof -
  from reachable_struct[OF assms(1)] obtain T where T: "struct_inv T w" by blast
  have To: "T other = t" using owns_unique[OF struct_owns[OF T] assms(3)] .
  let ?c = "clone (next_addr w) t"
  let ?T = "T(this := ?c)"
  have "struct_inv ?T w' \<and> cmp (queues w' this) = cmp (queues w other)
        \<and> (\<forall>q. q \<noteq> this \<longrightarrow> queues w' q = queues w q)"
    using assms(4)
  proof
    assume "priority_queue_copy w this other = Some (Ok (), w')"
    with copy_struct[OF T assms(2)] show ?thesis by (auto simp: To)
  next
    assume "assign w this other = Some (Ok this, w')"
    with assign_struct[OF T assms(2)] show ?thesis by (auto simp: To)
  qed
  then have S: "struct_inv ?T w'" and c: "cmp (queues w' this) = cmp (queues w' other)"
    using assms(2) by auto
  have o1: "owns w' this ?c" using struct_owns[OF S, of this] by simp
  have o2: "owns w' other t" using struct_owns[OF S, of other] assms(2) To by simp
  have dj: "set (addrs t) \<inter> set (addrs ?c) = {}"
    using struct_disjoint[OF S, of other this] assms(2) To by simp
  have ps: "map_option fst (pop_sequence k w' this) = map_option fst (pop_sequence k w' other)" for k
    using pop_sequence_fst[OF S, of k this] pop_sequence_fst[OF S, of k other] assms(2) To c
      same_tree_pops[OF same_tree_clone, of "cmp (queues w' other)" k t "next_addr w"]
    by simp
  have i1: "owns u other t" if "push w' this e = Some (r, u)" for e r u
    using push_keeps_others[OF S _ that, of other] assms(2) To by simp
  have i2: "owns u other t" if "pop w' this = Some (r, u)" for r u
    using pop_keeps_others[OF S _ that, of other] assms(2) To by simp
  have i3: "owns u this ?c" if "push w' other e = Some (r, u)" for e r u
    using push_keeps_others[OF S _ that, of this] assms(2) by simp
  have i4: "owns u this ?c" if "pop w' other = Some (r, u)" for r u
    using pop_keeps_others[OF S _ that, of this] assms(2) by simp
  show ?thesis
    using o1 o2 same_tree_clone[of t "next_addr w"] dj c ps i1 i2 i3 i4
    by (intro exI[of _ ?c]) blast
qed

theorem copy_is_independent_clone_witness:
  "reachable (total_cmp (<)) round_trip_world \<and> (1::nat) \<noteq> 0
   \<and> owns round_trip_world 0 round_trip_shape
   \<and> priority_queue_copy round_trip_world 1 0 = Some (Ok (), copied_world)
   \<and> assign round_trip_world 1 0 = Some (Ok 1, copied_world)
   \<and> owns copied_world 1 copied_shape \<and> owns copied_world 0 round_trip_shape
   \<and> same_tree round_trip_shape copied_shape
   \<and> map_option fst (pop_sequence 4 copied_world 1) = Some [8, 5, 3, 1]"
proof -
  have ne: "(1::nat) \<noteq> 0" by simp
  from copy_is_independent_clone[OF reachable_round_trip ne owns_round_trip
      disjI1[OF copy_round_trip]]
  obtain t' where t': "owns copied_world 1 t'" "owns copied_world 0 round_trip_shape"
    "same_tree round_trip_shape t'"
    "\<forall>k. map_option fst (pop_sequence k copied_world 1) = map_option fst (pop_sequence k copied_world 0)"
    by blast
  have oc: "owns copied_world 1 copied_shape"
    by (simp add: owns_def copied_world_def copied_shape_def)
  have "t' = copied_shape" using owns_unique[OF t'(1) oc] .
  moreover have "map_option fst (pop_sequence 4 copied_world 0) = Some [8, 5, 3, 1]"
    by (simp add: numeral_eq_Suc top_pq_def pop_def copied_world_def mergeNodes.simps
      mergeNodes_relink_def delete_node_def set_queue_def total_cmp_def Let_def)
  ultimately show ?thesis
    using t' oc reachable_round_trip owns_round_trip copy_round_trip assign_round_trip by simp
qed

section \<open>A copy that fails partway\<close>

text \<open>
  C4. The claim fails on the code. The world \<open>third_alloc_fails\<close> is reached by pushing
  9, 7 and 5; container 0 then holds 9 with children 7 and 5, and the third allocation
  to come throws. Copying container 0, by the copy constructor or by \<open>operator=\<close>,
  allocates the copies of 9 (at address 3) and 7 (at address 4); the allocation for 5
  throws inside the inner \<open>try\<close>. The inner handler releases the copy of 7 and the copy
  of 9 and rethrows; the outer handler catches that and releases the copy of 9 a
  second time. The release log ends as 3, 3, 4: the node at 3 is deleted twice, which
  is a fault. When it is the second allocation that throws (the copy of the left child
  7), only the outer handler runs: the copy of 9 is released once, the store is as
  before, and \<open>bad_alloc\<close> leaves the copy.
\<close>

theorem copy_failure_deletes_twice:
  "pushes (initial_world less_cmp [True, True, True, True, True, False]) 0 [9, 7, 5]
     = Some third_alloc_fails
   \<and> (\<exists>w'. priority_queue_copy third_alloc_fails 1 0 = Some (Fault, w')
          \<and> released w' = [3, 3, 4] \<and> count_list (released w') 3 = 2)
   \<and> (\<exists>w'. assign third_alloc_fails 1 0 = Some (Fault, w')
          \<and> released w' = [3, 3, 4] \<and> count_list (released w') 3 = 2)
   \<and> (\<exists>w'. priority_queue_copy (third_alloc_fails\<lparr>alloc_plan := [True, False]\<rparr>) 1 0
            = Some (Throw bad_alloc, w')
          \<and> released w' = [3] \<and> nodes w' = nodes third_alloc_fails
          \<and> queues w' = queues third_alloc_fails)"
proof (intro conjI)
  show "\<exists>w'. priority_queue_copy (third_alloc_fails\<lparr>alloc_plan := [True, False]\<rparr>) 1 0
            = Some (Throw bad_alloc, w')
          \<and> released w' = [3] \<and> nodes w' = nodes third_alloc_fails
          \<and> queues w' = queues third_alloc_fails"
    by (simp add: priority_queue_copy_def third_alloc_fails_def copyTree.simps
      new_node_def write_node_def delete_node_def set_queue_def copyTree_outer_catch_def
      fun_eq_iff)
  show "pushes (initial_world less_cmp [True, True, True, True, True, False]) 0 [9, 7, 5]
     = Some third_alloc_fails"
    by (simp add: push_def initial_world_def new_node_def mergeNodes.simps mergeNodes_relink_def
      set_queue_def less_cmp_def third_alloc_fails_def fun_eq_iff)
  show "\<exists>w'. priority_queue_copy third_alloc_fails 1 0 = Some (Fault, w')
          \<and> released w' = [3, 3, 4] \<and> count_list (released w') 3 = 2"
    by (simp add: priority_queue_copy_def third_alloc_fails_def copyTree.simps deleteTree.simps
      new_node_def write_node_def delete_node_def set_queue_def copyTree_inner_catch_def
      copyTree_outer_catch_def)
  show "\<exists>w'. assign third_alloc_fails 1 0 = Some (Fault, w')
          \<and> released w' = [3, 3, 4] \<and> count_list (released w') 3 = 2"
    by (simp add: assign_def third_alloc_fails_def copyTree.simps deleteTree.simps
      new_node_def write_node_def delete_node_def set_queue_def copyTree_inner_catch_def
      copyTree_outer_catch_def)
qed


text \<open>
  C8. The claim fails on the code for a copy that fails partway. The world
  \<open>fourth_alloc_fails\<close> is reached by pushing 5, 3, 8 and 1; container 0 holds its four
  elements with count 4, and the invariant holds in every slot. Copying container 0 into
  container 1, by \<open>operator=\<close> or by the copy constructor, allocates the copies of 8, 5
  and 3 (at 4, 5, 6); the allocation for the right child 1 throws. The handlers of
  \<open>copyTree\<close> then release the node at 4 twice (release log 4, 4, 5, 6): the operation
  does not leave by an exception with the invariant kept, it runs into a fault, after
  which the code defines no state of the containers.
\<close>

theorem failing_copy_faults:
  "pushes (initial_world (total_cmp (<)) [True, True, True, True, True, True, True, False]) 0
      [5, 3, 8, 1] = Some fourth_alloc_fails
   \<and> reachable (total_cmp (<)) fourth_alloc_fails
   \<and> owns fourth_alloc_fails 0 round_trip_shape \<and> count_pq (queues fourth_alloc_fails 0) = 4
   \<and> owns fourth_alloc_fails 1 Absent
   \<and> (\<exists>w'. assign fourth_alloc_fails 1 0 = Some (Fault, w')
          \<and> released w' = [4, 4, 5, 6] \<and> count_list (released w') 4 = 2)
   \<and> (\<exists>w'. priority_queue_copy fourth_alloc_fails 1 0 = Some (Fault, w')
          \<and> released w' = [4, 4, 5, 6] \<and> count_list (released w') 4 = 2)"
proof -
  have p: "pushes (initial_world (total_cmp (<)) [True, True, True, True, True, True, True, False]) 0
      [5, 3, 8, 1] = Some fourth_alloc_fails"
    by (simp add: push_def initial_world_def new_node_def mergeNodes.simps mergeNodes_relink_def
      set_queue_def total_cmp_def round_trip_world_def fourth_alloc_fails_def fun_eq_iff)
  have r: "reachable (total_cmp (<)) fourth_alloc_fails"
    using reachable_pushes[OF reachable.start p] .
  have o: "owns fourth_alloc_fails 0 round_trip_shape" "count_pq (queues fourth_alloc_fails 0) = 4"
    "owns fourth_alloc_fails 1 Absent"
    by (simp_all add: owns_def fourth_alloc_fails_def round_trip_world_def round_trip_shape_def)
  have a: "\<exists>w'. assign fourth_alloc_fails 1 0 = Some (Fault, w')
          \<and> released w' = [4, 4, 5, 6] \<and> count_list (released w') 4 = 2"
    by (simp add: assign_def fourth_alloc_fails_def round_trip_world_def copyTree.simps
      deleteTree.simps new_node_def write_node_def delete_node_def set_queue_def
      copyTree_inner_catch_def copyTree_outer_catch_def)
  have c: "\<exists>w'. priority_queue_copy fourth_alloc_fails 1 0 = Some (Fault, w')
          \<and> released w' = [4, 4, 5, 6] \<and> count_list (released w') 4 = 2"
    by (simp add: priority_queue_copy_def fourth_alloc_fails_def round_trip_world_def
      copyTree.simps deleteTree.simps new_node_def write_node_def delete_node_def set_queue_def
      copyTree_inner_catch_def copyTree_outer_catch_def)
  from p r o a c show ?thesis by blast
qed

end
